theory Spec2Isabelle
  imports Main "HOL-Library.AList"
begin

section \<open>Data model\<close>

text \<open>
  The overlay reconciler of \<^verbatim>\<open>go/packages/golist_overlay.go\<close>. Go strings and byte
  slices are \<^typ>\<open>string\<close> (a list of 8-bit characters). A Go \<^verbatim>\<open>error\<close> is
  represented by its message.
\<close>

type_synonym error = string

text \<open>
  Modelled from the spec: the \<^verbatim>\<open>Package\<close> struct is declared outside the file; these
  are the fields the reconciler reads or writes (identifier, display name, import
  path, load errors, the three file lists, the export artifact, the import map).
  \<^verbatim>\<open>Imports\<close> is a Go map from import path to a package pointer of which only the
  \<^verbatim>\<open>ID\<close> is ever read here (and no \<^verbatim>\<open>ID\<close> is ever assigned after construction), so
  the model keeps, per import path, the identifier of the target: an association
  list read with \<^const>\<open>map_of\<close> and written with \<^const>\<open>AList.update\<close>. The
  import map of a package is taken to be allocated, as the lister and line 112
  allocate it, so that the writes of lines 146 and 149 do not panic.
\<close>

record Package =
  ID :: string
  Name :: string
  PkgPath :: string
  Errors :: "error list"
  GoFiles :: "string list"
  CompiledGoFiles :: "string list"
  OtherFiles :: "string list"
  ExportFile :: string
  Imports :: "(string \<times> string) list"

text \<open>
  The collaborators the file calls but does not define: the Go parser in its two
  modes, \<^verbatim>\<open>strconv.Unquote\<close>, \<^verbatim>\<open>filepath.Dir\<close>, \<^verbatim>\<open>filepath.Base\<close>, and the
  methods \<^verbatim>\<open>sameFile\<close> and \<^verbatim>\<open>state.getPkgPath\<close> of the same Go package. They
  are parameters of the model.
\<close>

record env =
  ParsePackageClauseOnly :: "string \<Rightarrow> string \<Rightarrow> error + string"
  ParseImportsOnly :: "string \<Rightarrow> string \<Rightarrow> error + string list"
  Unquote :: "string \<Rightarrow> error + string"
  filepath_Dir :: "string \<Rightarrow> string"
  filepath_Base :: "string \<Rightarrow> string"
  sameFile :: "string \<Rightarrow> string \<Rightarrow> bool"
  getPkgPath :: "string \<Rightarrow> error + (string \<times> bool)"

section \<open>String helpers of the Go standard library\<close>

definition HasSuffix :: "string \<Rightarrow> string \<Rightarrow> bool" where
  "HasSuffix s suffix =
     (length suffix \<le> length s \<and> drop (length s - length suffix) s = suffix)"

fun IndexByte :: "string \<Rightarrow> char \<Rightarrow> int" where
  "IndexByte [] c = - 1"
| "IndexByte (x # xs) c =
     (if x = c then 0
      else (let i = IndexByte xs c in if i < 0 then - 1 else i + 1))"

section \<open>Source inspection\<close>

definition extractPackageName :: "env \<Rightarrow> string \<Rightarrow> string \<Rightarrow> string \<times> bool" where
  "extractPackageName E filename contents =
     (case ParsePackageClauseOnly E filename contents of
        Inl err \<Rightarrow> ('''', False)
      | Inr name \<Rightarrow> (name, True))"

fun unquoteAll :: "env \<Rightarrow> string list \<Rightarrow> string list \<Rightarrow> error + string list" where
  "unquoteAll E [] res = Inr res"
| "unquoteAll E (quotedPath # imps) res =
     (case Unquote E quotedPath of
        Inl err \<Rightarrow> Inl err
      | Inr path \<Rightarrow> unquoteAll E imps (res @ [path]))"

definition extractImports :: "env \<Rightarrow> string \<Rightarrow> string \<Rightarrow> error + string list" where
  "extractImports E filename contents =
     (case ParseImportsOnly E filename contents of
        Inl err \<Rightarrow> Inl err
      | Inr imps \<Rightarrow> unquoteAll E imps [])"

fun hasTestFiles_loop :: "string list \<Rightarrow> bool" where
  "hasTestFiles_loop [] = False"
| "hasTestFiles_loop (f # fs) =
     (if HasSuffix f ''_test.go'' then True else hasTestFiles_loop fs)"

definition hasTestFiles :: "Package \<Rightarrow> bool" where
  "hasTestFiles p = hasTestFiles_loop (GoFiles p)"

section \<open>Reclamation\<close>

text \<open>
  \<^verbatim>\<open>reclaimPackage\<close> mutates the package it is given through a pointer; the model
  returns the verdict together with the package as it is afterwards.
\<close>

definition reclaimPackage ::
  "env \<Rightarrow> Package \<Rightarrow> string \<Rightarrow> string \<Rightarrow> string \<Rightarrow> bool \<times> Package" where
  "reclaimPackage E p ident filename contents =
     (if ID p \<noteq> ident then (False, p)
      else if length (Errors p) \<noteq> 1 then (False, p)
      else if Name p \<noteq> '''' \<or> ExportFile p \<noteq> '''' then (False, p)
      else if length (GoFiles p) > 0 \<or> length (CompiledGoFiles p) > 0
                \<or> length (OtherFiles p) > 0 then (False, p)
      else if length (Imports p) > 0 then (False, p)
      else (case extractPackageName E filename contents of
              (pkgName, ok) \<Rightarrow>
                if \<not> ok then (False, p)
                else (True, p\<lparr>Name := pkgName, Errors := []\<rparr>)))"

section \<open>Root directories in module mode\<close>

record jsonMod =
  Path :: string
  Dir :: string

text \<open>
  \<^verbatim>\<open>determineRootDirsModules\<close> reads the output of \<^verbatim>\<open>go list -m -json all\<close> through
  a JSON decoder. The model takes the result of \<^verbatim>\<open>invokeGo\<close> (an error, or the
  stream) and represents the stream by what each successive \<^verbatim>\<open>Decode\<close> returns;
  \<^verbatim>\<open>dec.More()\<close> holds while that list is not empty. \<^verbatim>\<open>filepath.Abs\<close> is a parameter.
\<close>

fun decodeLoop ::
  "(string \<Rightarrow> error + string) \<Rightarrow> (error + jsonMod) list \<Rightarrow> (string \<rightharpoonup> string)
     \<Rightarrow> error + (string \<rightharpoonup> string)" where
  "decodeLoop Abs [] m = Inr m"
| "decodeLoop Abs (d # dec) m =
     (case d of
        Inl err \<Rightarrow> Inl err
      | Inr md \<Rightarrow>
          if Dir md \<noteq> '''' \<and> Path md \<noteq> '''' then
            (case Abs (Dir md) of
               Inl err \<Rightarrow> Inl err
             | Inr absDir \<Rightarrow> decodeLoop Abs dec (m(absDir \<mapsto> Path md)))
          else decodeLoop Abs dec m)"

definition determineRootDirsModules ::
  "(string \<Rightarrow> error + string) \<Rightarrow> error + (error + jsonMod) list
     \<Rightarrow> error + (string \<rightharpoonup> string)" where
  "determineRootDirsModules Abs out =
     (case out of
        Inl err \<Rightarrow> Inl err
      | Inr dec \<Rightarrow> decodeLoop Abs dec Map.empty)"

section \<open>The reconciler\<close>

text \<open>
  \<^verbatim>\<open>response.dr.Packages\<close> is a slice of package pointers, and the loop keeps
  pointers into it (\<^verbatim>\<open>pkg\<close>, \<^verbatim>\<open>testVariantOf\<close>) while it mutates the packages.
  The model is a store: the slice is a \<^typ>\<open>Package list\<close>, a pointer is a position
  in it, \<^verbatim>\<open>nil\<close> is \<^const>\<open>None\<close>, and a write through a pointer is a list update.
\<close>

record scan =
  pkg :: "nat option"
  testVariantOf :: "nat option"
  fileExists :: bool

datatype 'a labelled = ContinueNextPackage 'a | Fallthrough 'a

text \<open>Lines 66 to 77: the package \<open>i\<close> against the package found so far.\<close>

definition variantCheck :: "Package list \<Rightarrow> nat \<Rightarrow> scan \<Rightarrow> scan labelled" where
  "variantCheck ps i s =
     (case pkg s of
        None \<Rightarrow> Fallthrough s
      | Some j \<Rightarrow>
          if i \<noteq> j \<and> PkgPath (ps ! j) = PkgPath (ps ! i) then
            (if hasTestFiles (ps ! j) then ContinueNextPackage (s\<lparr>testVariantOf := Some i\<rparr>)
             else if hasTestFiles (ps ! i) then Fallthrough (s\<lparr>testVariantOf := Some j\<rparr>)
             else Fallthrough s)
          else Fallthrough s)"

text \<open>
  Lines 54 to 82, the loop over the files of package \<open>i\<close>. Nothing follows that
  loop in the body of the outer one, so \<^verbatim>\<open>continue nextPackage\<close> returns the locals
  as they are.
\<close>

fun scanFiles ::
  "env \<Rightarrow> Package list \<Rightarrow> string \<Rightarrow> string \<Rightarrow> bool \<Rightarrow> nat \<Rightarrow> string list \<Rightarrow> scan \<Rightarrow> scan" where
  "scanFiles E ps dir base isTestFile i [] s = s"
| "scanFiles E ps dir base isTestFile i (f # fs) s =
     (if \<not> sameFile E (filepath_Dir E f) dir then scanFiles E ps dir base isTestFile i fs s
      else if isTestFile \<and> \<not> hasTestFiles (ps ! i) then s\<lparr>testVariantOf := Some i\<rparr>
      else
        (case variantCheck ps i s of
           ContinueNextPackage s' \<Rightarrow> s'
         | Fallthrough s' \<Rightarrow>
             scanFiles E ps dir base isTestFile i fs
               (s'\<lparr>pkg := Some i,
                   fileExists := (if filepath_Base E f = base then True else fileExists s')\<rparr>)))"

definition scanPackage ::
  "env \<Rightarrow> Package list \<Rightarrow> string \<Rightarrow> string \<Rightarrow> string \<Rightarrow> bool \<Rightarrow> nat \<Rightarrow> scan \<Rightarrow> scan" where
  "scanPackage E ps pkgName dir base isTestFile i s =
     (if pkgName \<noteq> Name (ps ! i) \<and> ID (ps ! i) \<noteq> ''command-line-arguments'' then s
      else scanFiles E ps dir base isTestFile i (GoFiles (ps ! i)) s)"

text \<open>Lines 49 to 83: the search for the package of an overlay file.\<close>

definition findPackage ::
  "env \<Rightarrow> Package list \<Rightarrow> string \<Rightarrow> string \<Rightarrow> string \<Rightarrow> bool \<Rightarrow> scan" where
  "findPackage E ps pkgName dir base isTestFile =
     fold (scanPackage E ps pkgName dir base isTestFile) [0..<length ps]
       \<lparr>pkg = None, testVariantOf = None, fileExists = False\<rparr>"

text \<open>
  The state of the loop over the overlay. The Go sets \<^verbatim>\<open>map[string]bool\<close> are lists
  without repetition; Go leaves the order in which a map is ranged over open, and
  nothing proved below depends on the order chosen here.
\<close>

record loopState =
  Packages :: "Package list"
  havePkgs :: "string \<rightharpoonup> string"
  modifiedPkgsSet :: "string list"
  overlayAddsImports :: bool

datatype 'a ctl = Proceed 'a | Break | Return error

text \<open>Lines 104 to 109: the first package that can be reclaimed, if any.\<close>

fun reclaimLoop ::
  "env \<Rightarrow> string \<Rightarrow> string \<Rightarrow> string \<Rightarrow> Package list \<Rightarrow> nat option \<times> Package list" where
  "reclaimLoop E ident opath contents [] = (None, [])"
| "reclaimLoop E ident opath contents (p # ps) =
     (case reclaimPackage E p ident opath contents of
        (ok, p') \<Rightarrow>
          if ok then (Some 0, p' # ps)
          else (case reclaimLoop E ident opath contents ps of
                  (r, ps') \<Rightarrow> (map_option Suc r, p' # ps')))"

text \<open>
  Modelled from the spec: \<^verbatim>\<open>responseDeduper.addPackage\<close> is defined outside the file.
  The spec has the new package registered in the working response set: it becomes
  the last package of the response.
\<close>

definition addPackage :: "Package list \<Rightarrow> Package \<Rightarrow> Package list" where
  "addPackage ps p = ps @ [p]"

text \<open>
  Lines 103 to 120: reclaim a package with the identifier chosen for the file, or
  else create one, register it, and give it the production package's sources when
  the file is a test file of a package that is not an external test package.
\<close>

definition reclaimOrCreate ::
  "env \<Rightarrow> string \<Rightarrow> string \<Rightarrow> string \<Rightarrow> string \<Rightarrow> string \<Rightarrow> bool \<Rightarrow> bool \<Rightarrow> nat option
     \<Rightarrow> loopState \<Rightarrow> nat \<times> loopState" where
  "reclaimOrCreate E opath contents pkgName pkgPath ident isTestFile isXTest tvo st =
     (case reclaimLoop E ident opath contents (Packages st) of
        (Some i, ps) \<Rightarrow> (i, st\<lparr>Packages := ps\<rparr>)
      | (None, ps) \<Rightarrow>
          (let new = \<lparr>ID = ident, Name = pkgName, PkgPath = pkgPath, Errors = [],
                      GoFiles = [], CompiledGoFiles = [], OtherFiles = [],
                      ExportFile = [], Imports = []\<rparr>;
               i = length ps;
               ps1 = addPackage ps new;
               ps2 = (case tvo of
                        Some t \<Rightarrow>
                          if isTestFile \<and> \<not> isXTest then
                            ps1[i := (ps1 ! i)
                              \<lparr>GoFiles := GoFiles (ps1 ! i) @ GoFiles (ps1 ! t),
                               CompiledGoFiles :=
                                 CompiledGoFiles (ps1 ! i) @ CompiledGoFiles (ps1 ! t)\<rparr>]
                          else ps1
                      | None \<Rightarrow> ps1)
           in (i, st\<lparr>Packages := ps2, havePkgs := (havePkgs st)(pkgPath \<mapsto> ident)\<rparr>)))"

text \<open>
  Lines 85 to 121, entered when the search found no package. Both exits happen
  before anything is written.
\<close>

definition newPackage ::
  "env \<Rightarrow> string \<Rightarrow> string \<Rightarrow> string \<Rightarrow> string \<Rightarrow> bool \<Rightarrow> nat option \<Rightarrow> loopState
     \<Rightarrow> (nat \<times> loopState) ctl" where
  "newPackage E opath contents dir pkgName isTestFile tvo st =
     (case getPkgPath E dir of
        Inl err \<Rightarrow> Return err
      | Inr (pkgPath0, ok) \<Rightarrow>
          if \<not> ok then Break
          else
            (let isXTest = HasSuffix pkgName ''_test'';
                 pkgPath = (if isXTest then pkgPath0 @ ''_test'' else pkgPath0);
                 ident = (if isTestFile \<and> \<not> isXTest
                          then pkgPath @ '' ['' @ pkgPath @ ''.test]'' else pkgPath)
             in Proceed (reclaimOrCreate E opath contents pkgName pkgPath ident
                           isTestFile isXTest tvo st)))"

text \<open>Lines 122 to 128.\<close>

definition attachFile :: "string \<Rightarrow> nat \<Rightarrow> bool \<Rightarrow> loopState \<Rightarrow> loopState" where
  "attachFile opath i exists st =
     (if \<not> exists then
        (let p = Packages st ! i
         in st\<lparr>Packages := (Packages st)
                  [i := p\<lparr>GoFiles := GoFiles p @ [opath],
                          CompiledGoFiles := CompiledGoFiles p @ [opath]\<rparr>],
               modifiedPkgsSet := List.insert (ID p) (modifiedPkgsSet st)\<rparr>)
      else st)"

definition setImport :: "Package list \<Rightarrow> nat \<Rightarrow> string \<Rightarrow> string \<Rightarrow> Package list" where
  "setImport ps i imp ident =
     ps[i := (ps ! i)\<lparr>Imports := AList.update imp ident (Imports (ps ! i))\<rparr>]"

text \<open>Lines 134 to 151.\<close>

fun addImports :: "string list \<Rightarrow> nat \<Rightarrow> nat option \<Rightarrow> loopState \<Rightarrow> loopState" where
  "addImports [] i tvo st = st"
| "addImports (imp # imports) i tvo st =
     (if map_of (Imports (Packages st ! i)) imp \<noteq> None then addImports imports i tvo st
      else
        (let ident = (case havePkgs st imp of Some known \<Rightarrow> known | None \<Rightarrow> imp);
             ps1 = setImport (Packages st) i imp ident;
             ps2 = (case tvo of None \<Rightarrow> ps1 | Some t \<Rightarrow> setImport ps1 t imp ident)
         in addImports imports i tvo (st\<lparr>Packages := ps2, overlayAddsImports := True\<rparr>)))"

text \<open>
  Lines 37 to 121, for a file whose package clause gave \<open>pkgName\<close>: the search, and
  the reclaimed or new package when the search found none. The result holds the
  locals of the search and the package the file goes to.
\<close>

definition resolvePackage ::
  "env \<Rightarrow> string \<Rightarrow> string \<Rightarrow> string \<Rightarrow> loopState \<Rightarrow> (scan \<times> nat \<times> loopState) ctl" where
  "resolvePackage E opath contents pkgName st =
     (let base = filepath_Base E opath;
          dir = filepath_Dir E opath;
          isTestFile = HasSuffix opath ''_test.go'';
          s = findPackage E (Packages st) pkgName dir base isTestFile
      in case pkg s of
           Some i \<Rightarrow> Proceed (s, i, st)
         | None \<Rightarrow>
             (case newPackage E opath contents dir pkgName isTestFile (testVariantOf s) st of
                Return err \<Rightarrow> Return err
              | Break \<Rightarrow> Break
              | Proceed (i, st1) \<Rightarrow> Proceed (s, i, st1)))"

text \<open>
  Lines 37 to 151, one iteration of the loop over the overlay. \<^const>\<open>Break\<close> and
  \<^const>\<open>Return\<close> leave the loop with the state the iteration started from.
\<close>

definition processOverlayFile :: "env \<Rightarrow> string \<times> string \<Rightarrow> loopState \<Rightarrow> loopState ctl" where
  "processOverlayFile E entry st =
     (case entry of (opath, contents) \<Rightarrow>
        (case extractPackageName E opath contents of
           (pkgName, ok) \<Rightarrow>
             if \<not> ok then Proceed st
             else
               (case resolvePackage E opath contents pkgName st of
                  Return err \<Rightarrow> Return err
                | Break \<Rightarrow> Break
                | Proceed (s, i, st1) \<Rightarrow>
                    (let st2 = attachFile opath i (fileExists s) st1
                     in case extractImports E opath contents of
                          Inl err \<Rightarrow> Proceed st2
                        | Inr imports \<Rightarrow>
                            Proceed (addImports imports i (testVariantOf s) st2)))))"

text \<open>
  Lines 36 to 152. The overlay is a Go map; the list gives its entries in the order
  in which the loop is handed them. The result is the state the loop is left with
  and the error of an early \<^verbatim>\<open>return\<close>, if there was one.
\<close>

fun overlayLoop ::
  "env \<Rightarrow> (string \<times> string) list \<Rightarrow> loopState \<Rightarrow> loopState \<times> error option" where
  "overlayLoop E [] st = (st, None)"
| "overlayLoop E (entry # overlay) st =
     (case processOverlayFile E entry st of
        Proceed st' \<Rightarrow> overlayLoop E overlay st'
      | Break \<Rightarrow> (st, None)
      | Return err \<Rightarrow> (st, Some err))"

definition toPkgPath :: "string \<Rightarrow> string" where
  "toPkgPath ident =
     (let i = IndexByte ident (CHR '' '') in if i \<ge> 0 then take (nat i) ident else ident)"

text \<open>Lines 168 to 175.\<close>

fun neededImports ::
  "(string \<rightharpoonup> string) \<Rightarrow> (string \<times> string) list \<Rightarrow> string list \<Rightarrow> string list" where
  "neededImports have [] needPkgsSet = needPkgsSet"
| "neededImports have ((path, ident) # imps) needPkgsSet =
     (let pkgPath = toPkgPath ident
      in neededImports have imps
           (if have pkgPath = None then List.insert pkgPath needPkgsSet else needPkgsSet))"

fun neededPackages ::
  "(string \<rightharpoonup> string) \<Rightarrow> Package list \<Rightarrow> string list \<Rightarrow> string list" where
  "neededPackages have [] needPkgsSet = needPkgsSet"
| "neededPackages have (p # ps) needPkgsSet =
     neededPackages have ps (neededImports have (Imports p) needPkgsSet)"

text \<open>Lines 23 to 27.\<close>

fun initHavePkgs :: "Package list \<Rightarrow> (string \<rightharpoonup> string) \<Rightarrow> (string \<rightharpoonup> string)" where
  "initHavePkgs [] have = have"
| "initHavePkgs (p # ps) have = initHavePkgs ps (have(PkgPath p \<mapsto> ID p))"

text \<open>The state the loop over the overlay starts from (lines 19 to 34).\<close>

definition initialState :: "Package list \<Rightarrow> loopState" where
  "initialState ps =
     \<lparr>Packages = ps, havePkgs = initHavePkgs ps Map.empty,
      modifiedPkgsSet = [], overlayAddsImports = False\<rparr>"

text \<open>
  \<^verbatim>\<open>processGolistOverlay\<close>. The packages are written in place, so the caller sees
  them as the function leaves them whether it returns an error or not: the model
  returns them beside the result, which is the error or the pair of
  \<^verbatim>\<open>modifiedPkgs\<close> and \<^verbatim>\<open>needPkgs\<close>. \<^verbatim>\<open>needPkgs\<close> stays \<^verbatim>\<open>nil\<close> (\<^const>\<open>None\<close>) unless
  the overlay added an import.
\<close>

definition processGolistOverlay ::
  "env \<Rightarrow> Package list \<Rightarrow> (string \<times> string) list
     \<Rightarrow> Package list \<times> (error + string list \<times> string list option)" where
  "processGolistOverlay E ps overlay =
     (case overlayLoop E overlay (initialState ps) of
        (st, Some err) \<Rightarrow> (Packages st, Inl err)
      | (st, None) \<Rightarrow>
          (let needPkgsSet = neededPackages (havePkgs st) (Packages st) [];
               needPkgs = (if overlayAddsImports st then Some needPkgsSet else None)
           in (Packages st, Inr (modifiedPkgsSet st, needPkgs))))"

text \<open>Running the reconciler again and again, each time on the packages the last run left.\<close>

fun reconcileRuns :: "env \<Rightarrow> Package list \<Rightarrow> (string \<times> string) list list \<Rightarrow> Package list" where
  "reconcileRuns E ps [] = ps"
| "reconcileRuns E ps (overlay # overlays) =
     reconcileRuns E (fst (processGolistOverlay E ps overlay)) overlays"

section \<open>Notions the claims speak of\<close>

text \<open>
  An overlay file introduces the import \<open>imp\<close> when the loop reaches line 134 for
  it, \<open>imp\<close> is among the imports extracted from it, and the import map of the
  package the file was resolved to has no entry for \<open>imp\<close>.
\<close>

definition introduces :: "env \<Rightarrow> string \<times> string \<Rightarrow> loopState \<Rightarrow> string \<Rightarrow> bool" where
  "introduces E entry st imp =
     (case entry of (opath, contents) \<Rightarrow>
        (case extractPackageName E opath contents of
           (pkgName, ok) \<Rightarrow>
             ok \<and>
             (case resolvePackage E opath contents pkgName st of
                Proceed (s, i, st1) \<Rightarrow>
                  (case extractImports E opath contents of
                     Inr imports \<Rightarrow>
                       imp \<in> set imports \<and> map_of (Imports (Packages st1 ! i)) imp = None
                   | Inl err \<Rightarrow> False)
              | Break \<Rightarrow> False
              | Return err \<Rightarrow> False)))"

text \<open>Some file of the overlay, when the loop comes to it, introduces \<open>imp\<close>.\<close>

fun overlayIntroduces ::
  "env \<Rightarrow> (string \<times> string) list \<Rightarrow> loopState \<Rightarrow> string \<Rightarrow> bool" where
  "overlayIntroduces E [] st imp = False"
| "overlayIntroduces E (entry # overlay) st imp =
     (introduces E entry st imp
      \<or> (case processOverlayFile E entry st of
           Proceed st' \<Rightarrow> overlayIntroduces E overlay st' imp
         | Break \<Rightarrow> False
         | Return err \<Rightarrow> False))"

text \<open>
  An overlay file introduces \<open>imp\<close> unresolved when it introduces it and, at that
  point of the loop, \<^verbatim>\<open>havePkgs\<close> has no entry for \<open>imp\<close>, so that line 144 takes the
  import path itself for the identifier of the imported package.
\<close>

definition introducesUnresolved ::
  "env \<Rightarrow> string \<times> string \<Rightarrow> loopState \<Rightarrow> string \<Rightarrow> bool" where
  "introducesUnresolved E entry st imp =
     (case entry of (opath, contents) \<Rightarrow>
        (case extractPackageName E opath contents of
           (pkgName, ok) \<Rightarrow>
             ok \<and>
             (case resolvePackage E opath contents pkgName st of
                Proceed (s, i, st1) \<Rightarrow>
                  (case extractImports E opath contents of
                     Inr imports \<Rightarrow>
                       imp \<in> set imports \<and> map_of (Imports (Packages st1 ! i)) imp = None
                       \<and> havePkgs st1 imp = None
                   | Inl err \<Rightarrow> False)
              | Break \<Rightarrow> False
              | Return err \<Rightarrow> False)))"

fun overlayIntroducesUnresolved ::
  "env \<Rightarrow> (string \<times> string) list \<Rightarrow> loopState \<Rightarrow> string \<Rightarrow> bool" where
  "overlayIntroducesUnresolved E [] st imp = False"
| "overlayIntroducesUnresolved E (entry # overlay) st imp =
     (introducesUnresolved E entry st imp
      \<or> (case processOverlayFile E entry st of
           Proceed st' \<Rightarrow> overlayIntroducesUnresolved E overlay st' imp
         | Break \<Rightarrow> False
         | Return err \<Rightarrow> False))"

text \<open>
  What reconciliation may do to a package it was given: the identifier, the import
  path, the other files and the export file stay; the two Go file lists and the
  keys of the import map are extended; the name stays, or was empty (reclamation);
  the errors stay, or are cleared (reclamation).
\<close>

definition kept :: "Package \<Rightarrow> Package \<Rightarrow> bool" where
  "kept p p' =
     (ID p' = ID p \<and> PkgPath p' = PkgPath p \<and> OtherFiles p' = OtherFiles p
      \<and> ExportFile p' = ExportFile p
      \<and> take (length (GoFiles p)) (GoFiles p') = GoFiles p
      \<and> take (length (CompiledGoFiles p)) (CompiledGoFiles p') = CompiledGoFiles p
      \<and> fst ` set (Imports p) \<subseteq> fst ` set (Imports p')
      \<and> (Name p' = Name p \<or> Name p = [])
      \<and> (Errors p' = Errors p \<or> Errors p' = []))"

definition grows :: "Package list \<Rightarrow> Package list \<Rightarrow> bool" where
  "grows ps ps' = (length ps \<le> length ps' \<and> (\<forall>i<length ps. kept (ps ! i) (ps' ! i)))"

text \<open>The two pointers of the search point into a response of \<open>n\<close> packages.\<close>

definition withinResponse :: "nat \<Rightarrow> scan \<Rightarrow> bool" where
  "withinResponse n s =
     ((case pkg s of None \<Rightarrow> True | Some j \<Rightarrow> j < n)
      \<and> (case testVariantOf s of None \<Rightarrow> True | Some t \<Rightarrow> t < n))"

text \<open>
  The Go file lists of \<open>p'\<close> are those of \<open>p\<close> followed by the same further files,
  each of them once, none of them a file \<open>p\<close> had, all of them from \<open>A\<close>.
\<close>

definition appendedFiles :: "string set \<Rightarrow> Package \<Rightarrow> Package \<Rightarrow> bool" where
  "appendedFiles A p p' =
     (\<exists>as. GoFiles p' = GoFiles p @ as \<and> CompiledGoFiles p' = CompiledGoFiles p @ as
           \<and> distinct as \<and> set as \<inter> set (GoFiles p) = {} \<and> set as \<subseteq> A)"

section \<open>A sample environment\<close>

text \<open>
  Concrete collaborators on which the theorems below are exercised: slash-separated
  paths, files compared by name, a parser that knows a handful of file contents,
  and a root directory map with two roots.
\<close>

definition sampleDir :: "string \<Rightarrow> string" where
  "sampleDir path = rev (tl (dropWhile (\<lambda>c. c \<noteq> CHR ''/'') (rev path)))"

definition sampleBase :: "string \<Rightarrow> string" where
  "sampleBase path = rev (takeWhile (\<lambda>c. c \<noteq> CHR ''/'') (rev path))"

definition sampleSources :: "(string \<times> string \<times> (error + string list)) list" where
  "sampleSources =
     [(''package a'', ''a'', Inr []),
      (''package b'', ''b'', Inr []),
      (''package x'', ''x'', Inr []),
      (''package a; import <x>'', ''a'', Inr [''<x>'']),
      (''package a; import ('', ''a'', Inl ''expected import path''),
      (''package o'', ''o'', Inr []),
      (''package a; import <a b>'', ''a'', Inr [''<a b>''])]"

definition sampleUnquote :: "string \<Rightarrow> error + string" where
  "sampleUnquote lit =
     (if 2 \<le> length lit \<and> hd lit = CHR ''<'' \<and> last lit = CHR ''>''
      then Inr (butlast (tl lit)) else Inl ''invalid syntax'')"

definition sampleRoots :: "(string \<times> (error + string \<times> bool)) list" where
  "sampleRoots =
     [(''/r/a'', Inr (''pkg/a'', True)),
      (''/r/b'', Inr (''pkg/b'', True)),
      (''/r/x'', Inr (''x'', True)),
      (''/broken'', Inl ''go env failed'')]"

definition sampleEnv :: env where
  "sampleEnv =
     \<lparr>ParsePackageClauseOnly =
        (\<lambda>filename contents.
           case map_of sampleSources contents of
             None \<Rightarrow> Inl ''expected package''
           | Some (name, imps) \<Rightarrow> Inr name),
      ParseImportsOnly =
        (\<lambda>filename contents.
           case map_of sampleSources contents of
             None \<Rightarrow> Inl ''expected package''
           | Some (name, imps) \<Rightarrow> imps),
      Unquote = sampleUnquote,
      filepath_Dir = sampleDir,
      filepath_Base = sampleBase,
      sameFile = (\<lambda>x y. x = y),
      getPkgPath =
        (\<lambda>dir. case map_of sampleRoots dir of
                  None \<Rightarrow> Inr ('''', False)
                | Some r \<Rightarrow> r)\<rparr>"

definition emptyPackage :: Package where
  "emptyPackage =
     \<lparr>ID = '''', Name = '''', PkgPath = '''', Errors = [], GoFiles = [],
      CompiledGoFiles = [], OtherFiles = [], ExportFile = '''', Imports = []\<rparr>"

definition pkgA :: Package where
  "pkgA = emptyPackage\<lparr>ID := ''pkg/a'', Name := ''a'', PkgPath := ''pkg/a'',
            GoFiles := [''/r/a/a.go''], CompiledGoFiles := [''/r/a/a.go'']\<rparr>"

definition pkgB :: Package where
  "pkgB = emptyPackage\<lparr>ID := ''pkg/b'', Name := ''b'', PkgPath := ''pkg/b'',
            GoFiles := [''/r/b/b.go''], CompiledGoFiles := [''/r/b/b.go'']\<rparr>"

definition placeholderA :: Package where
  "placeholderA = emptyPackage\<lparr>ID := ''pkg/a'', PkgPath := ''pkg/a'',
            Errors := [''no Go files in /r/a'']\<rparr>"

definition pkgO :: Package where
  "pkgO = emptyPackage\<lparr>ID := ''o'', Name := ''o'', PkgPath := ''o'',
            GoFiles := [''/out/o.go''], CompiledGoFiles := [''/out/o.go'']\<rparr>"

definition placeholderBTest :: Package where
  "placeholderBTest = emptyPackage\<lparr>ID := ''pkg/b [pkg/b.test]'', PkgPath := ''pkg/b'',
            Errors := [''no Go files in /r/b'']\<rparr>"

section \<open>Reclamation: when it fires and what it writes\<close>

text \<open>
  Claim C4. Reclamation fires exactly when the candidate's identifier is the target,
  it carries exactly one error, it has no name, no export file, no file of any of
  the three kinds and no import, and the package clause of the overlay content
  parses. So it never fires on a candidate with more than one error, or with a
  non-empty file list or import map, whatever its identifier.
\<close>

theorem reclaimPackage_fires_iff:
  "fst (reclaimPackage E p ident filename contents) =
     (ID p = ident \<and> length (Errors p) = 1 \<and> Name p = '''' \<and> ExportFile p = ''''
      \<and> GoFiles p = [] \<and> CompiledGoFiles p = [] \<and> OtherFiles p = [] \<and> Imports p = []
      \<and> snd (extractPackageName E filename contents))"
  by (cases "extractPackageName E filename contents") (auto simp: reclaimPackage_def)

theorem reclaimPackage_fires_iff_witness:
  "fst (reclaimPackage sampleEnv placeholderA ''pkg/a'' ''/r/a/new.go'' ''package a'')
   \<and> \<not> fst (reclaimPackage sampleEnv (placeholderA\<lparr>Errors := [''e1'', ''e2'']\<rparr>)
              ''pkg/a'' ''/r/a/new.go'' ''package a'')
   \<and> \<not> fst (reclaimPackage sampleEnv (placeholderA\<lparr>GoFiles := [''/r/a/a.go'']\<rparr>)
              ''pkg/a'' ''/r/a/new.go'' ''package a'')"
  using
    reclaimPackage_fires_iff
      [of sampleEnv placeholderA "''pkg/a''" "''/r/a/new.go''" "''package a''"]
    reclaimPackage_fires_iff
      [of sampleEnv "placeholderA\<lparr>Errors := [''e1'', ''e2'']\<rparr>" "''pkg/a''"
          "''/r/a/new.go''" "''package a''"]
    reclaimPackage_fires_iff
      [of sampleEnv "placeholderA\<lparr>GoFiles := [''/r/a/a.go'']\<rparr>" "''pkg/a''"
          "''/r/a/new.go''" "''package a''"]
  by (simp add: placeholderA_def emptyPackage_def extractPackageName_def sampleEnv_def
      sampleSources_def)

text \<open>
  Claim C10. When \<^const>\<open>reclaimPackage\<close> answers false, the candidate is left as it
  was, field for field; when it answers true, the candidate differs from what it
  was in its name, now the name extracted from the overlay content, and in its
  error list, now empty, and in nothing else.
\<close>

theorem reclaimPackage_atomic:
  "(\<not> fst (reclaimPackage E p ident filename contents)
      \<longrightarrow> snd (reclaimPackage E p ident filename contents) = p)
   \<and> (fst (reclaimPackage E p ident filename contents)
      \<longrightarrow> snd (reclaimPackage E p ident filename contents)
            = p\<lparr>Name := fst (extractPackageName E filename contents), Errors := []\<rparr>)"
  by (cases "extractPackageName E filename contents") (auto simp: reclaimPackage_def)

theorem reclaimPackage_atomic_witness:
  "\<not> fst (reclaimPackage sampleEnv pkgA ''pkg/a'' ''/r/a/new.go'' ''package a'')
   \<and> snd (reclaimPackage sampleEnv pkgA ''pkg/a'' ''/r/a/new.go'' ''package a'') = pkgA
   \<and> fst (reclaimPackage sampleEnv placeholderA ''pkg/a'' ''/r/a/new.go'' ''package a'')
   \<and> snd (reclaimPackage sampleEnv placeholderA ''pkg/a'' ''/r/a/new.go'' ''package a'')
       = placeholderA\<lparr>Name := ''a'', Errors := []\<rparr>"
proof -
  have no: "\<not> fst (reclaimPackage sampleEnv pkgA ''pkg/a'' ''/r/a/new.go'' ''package a'')"
    by (simp add: reclaimPackage_def pkgA_def emptyPackage_def)
  have yes: "fst (reclaimPackage sampleEnv placeholderA ''pkg/a'' ''/r/a/new.go'' ''package a'')"
    by (simp add: reclaimPackage_def placeholderA_def emptyPackage_def extractPackageName_def
        sampleEnv_def sampleSources_def)
  have name: "fst (extractPackageName sampleEnv ''/r/a/new.go'' ''package a'') = ''a''"
    by (simp add: extractPackageName_def sampleEnv_def sampleSources_def)
  from no yes name
    reclaimPackage_atomic [of sampleEnv pkgA "''pkg/a''" "''/r/a/new.go''" "''package a''"]
    reclaimPackage_atomic
      [of sampleEnv placeholderA "''pkg/a''" "''/r/a/new.go''" "''package a''"]
  show ?thesis by simp
qed

section \<open>Module entries and the root directory map\<close>

lemma decodeLoop_append:
  "decodeLoop Abs (xs @ ys) m =
     (case decodeLoop Abs xs m of Inl err \<Rightarrow> Inl err | Inr m' \<Rightarrow> decodeLoop Abs ys m')"
  by (induction xs arbitrary: m) (auto split: sum.splits)

lemma decodeLoop_skip:
  "Dir md = '''' \<or> Path md = ''''
     \<Longrightarrow> decodeLoop Abs (xs @ Inr md # ys) m = decodeLoop Abs (xs @ ys) m"
  by (auto simp: decodeLoop_append split: sum.splits)

lemma decodeLoop_keeps_or_overwrites:
  "decodeLoop Abs ds m0 = Inr m \<Longrightarrow> m0 a = Some p
     \<Longrightarrow> m a = Some p
        \<or> (\<exists>md'. Inr md' \<in> set ds \<and> Dir md' \<noteq> '''' \<and> Path md' \<noteq> ''''
                  \<and> Abs (Dir md') = Inr a \<and> m a = Some (Path md'))"
proof (induction ds arbitrary: m0 p)
  case Nil
  then show ?case by simp
next
  case (Cons d ds)
  show ?case
  proof (cases d)
    case (Inl err)
    with Cons.prems show ?thesis by simp
  next
    case (Inr md)
    show ?thesis
    proof (cases "Dir md \<noteq> '''' \<and> Path md \<noteq> ''''")
      case False
      with Inr Cons.prems have "decodeLoop Abs ds m0 = Inr m" by auto
      from Cons.IH [OF this Cons.prems(2)] show ?thesis by auto
    next
      case True
      with Inr Cons.prems obtain absDir where
        ab: "Abs (Dir md) = Inr absDir" and
        run: "decodeLoop Abs ds (m0(absDir \<mapsto> Path md)) = Inr m"
        by (auto split: sum.splits)
      show ?thesis
      proof (cases "absDir = a")
        case True
        then have "(m0(absDir \<mapsto> Path md)) a = Some (Path md)" by simp
        from Cons.IH [OF run this] \<open>Dir md \<noteq> '''' \<and> Path md \<noteq> ''''\<close> ab Inr True
        show ?thesis by auto
      next
        case False
        then have "(m0(absDir \<mapsto> Path md)) a = Some p" using Cons.prems(2) by simp
        from Cons.IH [OF run this] show ?thesis by auto
      qed
    qed
  qed
qed

text \<open>
  Claim C3, as the code has it. A module entry is skipped when it lacks a path or
  lacks a directory: the map is the one computed without the entry. An entry that
  has both is written to the map under its absolute directory, and when
  \<^const>\<open>determineRootDirsModules\<close> returns a map, that directory is mapped to the
  entry's path, or to the path of a later entry with both fields and the same
  absolute directory.
\<close>

theorem module_entry_added_iff_path_and_dir:
  "(Dir md = '''' \<or> Path md = '''' \<longrightarrow>
      determineRootDirsModules Abs (Inr (before @ Inr md # rest))
        = determineRootDirsModules Abs (Inr (before @ rest)))
   \<and> (Dir md \<noteq> '''' \<and> Path md \<noteq> ''''
        \<and> determineRootDirsModules Abs (Inr (before @ Inr md # rest)) = Inr m \<longrightarrow>
      (\<exists>absDir. Abs (Dir md) = Inr absDir
         \<and> (m absDir = Some (Path md)
            \<or> (\<exists>md'. Inr md' \<in> set rest \<and> Dir md' \<noteq> '''' \<and> Path md' \<noteq> ''''
                  \<and> Abs (Dir md') = Inr absDir \<and> m absDir = Some (Path md')))))"
proof (intro conjI impI)
  assume "Dir md = '''' \<or> Path md = ''''"
  then show "determineRootDirsModules Abs (Inr (before @ Inr md # rest))
        = determineRootDirsModules Abs (Inr (before @ rest))"
    by (simp add: determineRootDirsModules_def decodeLoop_skip)
next
  assume a: "Dir md \<noteq> '''' \<and> Path md \<noteq> ''''
        \<and> determineRootDirsModules Abs (Inr (before @ Inr md # rest)) = Inr m"
  then obtain m1 absDir where
    ab: "Abs (Dir md) = Inr absDir" and
    run: "decodeLoop Abs rest (m1(absDir \<mapsto> Path md)) = Inr m"
    by (auto simp: determineRootDirsModules_def decodeLoop_append split: sum.splits)
  have "(m1(absDir \<mapsto> Path md)) absDir = Some (Path md)" by simp
  from decodeLoop_keeps_or_overwrites [OF run this] ab
  show "\<exists>absDir. Abs (Dir md) = Inr absDir
         \<and> (m absDir = Some (Path md)
            \<or> (\<exists>md'. Inr md' \<in> set rest \<and> Dir md' \<noteq> '''' \<and> Path md' \<noteq> ''''
                  \<and> Abs (Dir md') = Inr absDir \<and> m absDir = Some (Path md')))"
    by auto
qed

theorem module_entry_added_iff_path_and_dir_witness:
  "determineRootDirsModules Inr
      (Inr ([Inr \<lparr>Path = ''example.com/m'', Dir = ''/src/m''\<rparr>]
             @ Inr \<lparr>Path = ''example.com/nodir'', Dir = ''''\<rparr> # []))
     = determineRootDirsModules Inr
         (Inr ([Inr \<lparr>Path = ''example.com/m'', Dir = ''/src/m''\<rparr>] @ []))
   \<and> determineRootDirsModules Inr
         (Inr ([] @ Inr \<lparr>Path = ''example.com/m'', Dir = ''/src/m''\<rparr> # []))
       = Inr [''/src/m'' \<mapsto> ''example.com/m'']
   \<and> [''/src/m'' \<mapsto> ''example.com/m''] ''/src/m'' = Some ''example.com/m''"
  using module_entry_added_iff_path_and_dir
      [of "\<lparr>Path = ''example.com/nodir'', Dir = ''''\<rparr>" Inr
          "[Inr \<lparr>Path = ''example.com/m'', Dir = ''/src/m''\<rparr>]" "[]" Map.empty]
    module_entry_added_iff_path_and_dir
      [of "\<lparr>Path = ''example.com/m'', Dir = ''/src/m''\<rparr>" Inr "[]" "[]"
          "[''/src/m'' \<mapsto> ''example.com/m'']"]
  by (simp add: determineRootDirsModules_def)

text \<open>
  Claim C3 as the spec words it has every entry with a path or a directory added.
  An entry with a path and no directory is not: the map stays empty.
\<close>

theorem module_entry_with_path_only_counterexample:
  "Path \<lparr>Path = ''example.com/nodir'', Dir = ''''\<rparr> \<noteq> ''''
   \<and> determineRootDirsModules Inr (Inr [Inr \<lparr>Path = ''example.com/nodir'', Dir = ''''\<rparr>])
       = Inr Map.empty"
  by (simp add: determineRootDirsModules_def)

section \<open>Overlay files without a package clause\<close>

lemma processOverlayFile_unparsable:
  "\<not> snd (extractPackageName E opath contents)
     \<Longrightarrow> processOverlayFile E (opath, contents) st = Proceed st"
  by (cases "extractPackageName E opath contents") (simp add: processOverlayFile_def Let_def)

lemma overlayLoop_skip_unparsable:
  "\<not> snd (extractPackageName E opath contents)
     \<Longrightarrow> overlayLoop E (before @ (opath, contents) # rest) st = overlayLoop E (before @ rest) st"
  by (induction before arbitrary: st)
     (simp_all add: processOverlayFile_unparsable split: ctl.splits)

text \<open>
  Claim C8. An overlay file whose package clause does not parse leaves the whole
  state of the loop as it found it (the packages, \<^verbatim>\<open>havePkgs\<close>, the modified set and
  the new-imports flag), and the loop goes on to the next file; so reconciliation
  gives the same packages and the same result as it gives on the overlay without
  that file.
\<close>

theorem unparsable_package_clause_is_inert:
  "\<not> snd (extractPackageName E opath contents)
     \<Longrightarrow> processOverlayFile E (opath, contents) st = Proceed st
        \<and> processGolistOverlay E ps (before @ (opath, contents) # rest)
            = processGolistOverlay E ps (before @ rest)"
  by (simp add: processOverlayFile_unparsable overlayLoop_skip_unparsable
      processGolistOverlay_def)

theorem unparsable_package_clause_is_inert_witness:
  "\<not> snd (extractPackageName sampleEnv ''/r/a/new.go'' ''pakage a'')
   \<and> processGolistOverlay sampleEnv [pkgA]
        ([] @ (''/r/a/new.go'', ''pakage a'') # [(''/r/a/more.go'', ''package a'')])
       = processGolistOverlay sampleEnv [pkgA] [(''/r/a/more.go'', ''package a'')]"
proof -
  have h: "\<not> snd (extractPackageName sampleEnv ''/r/a/new.go'' ''pakage a'')"
    by (simp add: extractPackageName_def sampleEnv_def sampleSources_def)
  from h unparsable_package_clause_is_inert
      [OF h, of _ "[pkgA]" "[]" "[(''/r/a/more.go'', ''package a'')]"]
  show ?thesis by simp
qed

section \<open>What each part of an iteration writes\<close>

lemma reclaimPackage_cases:
  assumes "reclaimPackage E p ident opath contents = (ok, p')"
  shows "(\<not> ok \<and> p' = p)
         \<or> (ok \<and> p' = p\<lparr>Name := fst (extractPackageName E opath contents), Errors := []\<rparr>
             \<and> ID p = ident \<and> Name p = [] \<and> GoFiles p = [] \<and> CompiledGoFiles p = []
             \<and> Imports p = [])"
  using assms
  by (cases "extractPackageName E opath contents")
     (auto simp: reclaimPackage_def split: if_splits)

lemma reclaimLoop_cases:
  assumes "reclaimLoop E ident opath contents ps = (r, ps')"
  shows "(r = None \<and> ps' = ps)
         \<or> (\<exists>k. r = Some k \<and> k < length ps
                \<and> ps' = ps[k := (ps ! k)\<lparr>Name := fst (extractPackageName E opath contents),
                                          Errors := []\<rparr>]
                \<and> ID (ps ! k) = ident \<and> Name (ps ! k) = [] \<and> GoFiles (ps ! k) = []
                \<and> CompiledGoFiles (ps ! k) = [] \<and> Imports (ps ! k) = [])"
  using assms
proof (induction ps arbitrary: r ps')
  case Nil
  then show ?case by simp
next
  case (Cons p ps)
  obtain ok p' where rp: "reclaimPackage E p ident opath contents = (ok, p')"
    by (cases "reclaimPackage E p ident opath contents")
  show ?case
  proof (cases ok)
    case True
    with rp Cons.prems have "r = Some 0" "ps' = p' # ps" by auto
    with reclaimPackage_cases [OF rp] True show ?thesis by auto
  next
    case False
    with reclaimPackage_cases [OF rp] have p': "p' = p" by auto
    obtain r0 ps0 where rl: "reclaimLoop E ident opath contents ps = (r0, ps0)"
      by (cases "reclaimLoop E ident opath contents ps")
    with rp False p' Cons.prems have r: "r = map_option Suc r0" and ps': "ps' = p # ps0"
      by auto
    from Cons.IH [OF rl] show ?thesis
    proof
      assume "r0 = None \<and> ps0 = ps"
      with r ps' show ?thesis by simp
    next
      assume "\<exists>k. r0 = Some k \<and> k < length ps
                \<and> ps0 = ps[k := (ps ! k)\<lparr>Name := fst (extractPackageName E opath contents),
                                          Errors := []\<rparr>]
                \<and> ID (ps ! k) = ident \<and> Name (ps ! k) = [] \<and> GoFiles (ps ! k) = []
                \<and> CompiledGoFiles (ps ! k) = [] \<and> Imports (ps ! k) = []"
      then obtain k where k: "r0 = Some k" "k < length ps"
          "ps0 = ps[k := (ps ! k)\<lparr>Name := fst (extractPackageName E opath contents),
                                          Errors := []\<rparr>]"
          "ID (ps ! k) = ident" "Name (ps ! k) = []" "GoFiles (ps ! k) = []"
          "CompiledGoFiles (ps ! k) = []" "Imports (ps ! k) = []"
        by blast
      have "r = Some (Suc k) \<and> Suc k < length (p # ps)
                \<and> ps' = (p # ps)[Suc k := ((p # ps) ! Suc k)
                      \<lparr>Name := fst (extractPackageName E opath contents), Errors := []\<rparr>]
                \<and> ID ((p # ps) ! Suc k) = ident \<and> Name ((p # ps) ! Suc k) = []
                \<and> GoFiles ((p # ps) ! Suc k) = []
                \<and> CompiledGoFiles ((p # ps) ! Suc k) = [] \<and> Imports ((p # ps) ! Suc k) = []"
        using k r ps' by simp
      then show ?thesis by blast
    qed
  qed
qed

text \<open>
  The two outcomes of lines 103 to 120: a package of the response is reclaimed, or
  a package is added at the end of the response.
\<close>

lemma reclaimOrCreate_cases:
  assumes "reclaimOrCreate E opath contents pkgName pkgPath ident isTestFile isXTest tvo st
             = (i, st')"
    and tv: "\<forall>t. tvo = Some t \<longrightarrow> t < length (Packages st)"
  obtains (reclaimed)
      "i < length (Packages st)"
      "st' = st\<lparr>Packages := (Packages st)
                   [i := (Packages st ! i)\<lparr>Name := fst (extractPackageName E opath contents),
                                             Errors := []\<rparr>]\<rparr>"
      "ID (Packages st ! i) = ident" "Name (Packages st ! i) = []"
      "GoFiles (Packages st ! i) = []" "CompiledGoFiles (Packages st ! i) = []"
      "Imports (Packages st ! i) = []"
  | (created) new where
      "i = length (Packages st)"
      "st' = st\<lparr>Packages := Packages st @ [new],
                 havePkgs := (havePkgs st)(pkgPath \<mapsto> ident)\<rparr>"
      "reclaimLoop E ident opath contents (Packages st) = (None, Packages st)"
      "ID new = ident" "PkgPath new = pkgPath" "Name new = pkgName" "Imports new = []"
      "Errors new = []" "OtherFiles new = []" "ExportFile new = []"
      "GoFiles new =
         (case tvo of
            Some t \<Rightarrow> if isTestFile \<and> \<not> isXTest then GoFiles (Packages st ! t) else []
          | None \<Rightarrow> [])"
      "CompiledGoFiles new =
         (case tvo of
            Some t \<Rightarrow> if isTestFile \<and> \<not> isXTest then CompiledGoFiles (Packages st ! t)
                      else []
          | None \<Rightarrow> [])"
proof -
  obtain r ps where rl: "reclaimLoop E ident opath contents (Packages st) = (r, ps)"
    by (cases "reclaimLoop E ident opath contents (Packages st)")
  from reclaimLoop_cases [OF rl] show thesis
  proof
    assume n: "r = None \<and> ps = Packages st"
    define new0 where "new0 = \<lparr>ID = ident, Name = pkgName, PkgPath = pkgPath, Errors = [],
                      GoFiles = [], CompiledGoFiles = [], OtherFiles = [],
                      ExportFile = [], Imports = []\<rparr>"
    define new where "new =
       (case tvo of
          Some t \<Rightarrow>
            if isTestFile \<and> \<not> isXTest then
              new0\<lparr>GoFiles := GoFiles ((Packages st @ [new0]) ! t),
                   CompiledGoFiles := CompiledGoFiles ((Packages st @ [new0]) ! t)\<rparr>
            else new0
        | None \<Rightarrow> new0)"
    have st': "st' = st\<lparr>Packages := Packages st @ [new],
                 havePkgs := (havePkgs st)(pkgPath \<mapsto> ident)\<rparr>"
      and i: "i = length (Packages st)"
      using assms(1) rl n unfolding new_def new0_def
      by (auto simp: reclaimOrCreate_def Let_def addPackage_def split: option.splits)
    have fields: "ID new = ident" "PkgPath new = pkgPath" "Name new = pkgName"
        "Imports new = []" "Errors new = []" "OtherFiles new = []" "ExportFile new = []"
      unfolding new_def new0_def by (auto split: option.splits)
    have files: "GoFiles new =
         (case tvo of
            Some t \<Rightarrow> if isTestFile \<and> \<not> isXTest then GoFiles (Packages st ! t) else []
          | None \<Rightarrow> [])"
      "CompiledGoFiles new =
         (case tvo of
            Some t \<Rightarrow> if isTestFile \<and> \<not> isXTest then CompiledGoFiles (Packages st ! t)
                      else []
          | None \<Rightarrow> [])"
      using tv unfolding new_def new0_def by (auto simp: nth_append split: option.splits)
    from i st' rl n fields files show thesis by (intro created) auto
  next
    assume "\<exists>k. r = Some k \<and> k < length (Packages st)
                \<and> ps = (Packages st)[k := (Packages st ! k)
                      \<lparr>Name := fst (extractPackageName E opath contents), Errors := []\<rparr>]
                \<and> ID (Packages st ! k) = ident \<and> Name (Packages st ! k) = []
                \<and> GoFiles (Packages st ! k) = []
                \<and> CompiledGoFiles (Packages st ! k) = [] \<and> Imports (Packages st ! k) = []"
    then obtain k where k: "r = Some k" "k < length (Packages st)"
        "ps = (Packages st)[k := (Packages st ! k)
                      \<lparr>Name := fst (extractPackageName E opath contents), Errors := []\<rparr>]"
        "ID (Packages st ! k) = ident" "Name (Packages st ! k) = []"
        "GoFiles (Packages st ! k) = []"
        "CompiledGoFiles (Packages st ! k) = []" "Imports (Packages st ! k) = []"
      by blast
    with assms(1) rl have "i = k" "st' = st\<lparr>Packages := ps\<rparr>"
      by (auto simp: reclaimOrCreate_def)
    with k show thesis by (intro reclaimed) auto
  qed
qed

section \<open>The search returns packages of the response\<close>

lemma variantCheck_within:
  assumes "i < n" and "withinResponse n s"
  shows "case variantCheck ps i s of
           ContinueNextPackage s' \<Rightarrow> withinResponse n s'
         | Fallthrough s' \<Rightarrow> withinResponse n s'"
  using assms
  by (cases "pkg s") (simp_all add: variantCheck_def withinResponse_def)

lemma scanFiles_within:
  assumes "i < n" and "withinResponse n s"
  shows "withinResponse n (scanFiles E ps dir base isTestFile i fs s)"
  using assms(2)
proof (induction fs arbitrary: s)
  case Nil
  then show ?case by simp
next
  case (Cons f fs)
  show ?case
  proof (cases "sameFile E (filepath_Dir E f) dir")
    case False
    then show ?thesis using Cons.IH [OF Cons.prems] by simp
  next
    case same: True
    show ?thesis
    proof (cases "isTestFile \<and> \<not> hasTestFiles (ps ! i)")
      case True
      have "withinResponse n (s\<lparr>testVariantOf := Some i\<rparr>)"
        using Cons.prems assms(1) by (simp add: withinResponse_def)
      with same True show ?thesis by simp
    next
      case noTest: False
      show ?thesis
      proof (cases "variantCheck ps i s")
        case (ContinueNextPackage s')
        with variantCheck_within [OF assms(1) Cons.prems, of ps]
        have "withinResponse n s'" by simp
        with same noTest ContinueNextPackage show ?thesis by auto
      next
        case (Fallthrough s')
        with variantCheck_within [OF assms(1) Cons.prems, of ps]
        have "withinResponse n s'" by simp
        then have "withinResponse n (s'\<lparr>pkg := Some i,
               fileExists := (if filepath_Base E f = base then True else fileExists s')\<rparr>)"
          using assms(1) by (simp add: withinResponse_def)
        from Cons.IH [OF this] same noTest Fallthrough show ?thesis by auto
      qed
    qed
  qed
qed

lemma scanPackages_within:
  assumes "set idxs \<subseteq> {..<n}" and "withinResponse n s"
  shows "withinResponse n (fold (scanPackage E ps pkgName dir base isTestFile) idxs s)"
  using assms
proof (induction idxs arbitrary: s)
  case Nil
  then show ?case by simp
next
  case (Cons i idxs)
  have i: "i < n" using Cons.prems(1) by simp
  have "withinResponse n (scanPackage E ps pkgName dir base isTestFile i s)"
    using scanFiles_within [OF i Cons.prems(2)] Cons.prems(2)
    by (simp add: scanPackage_def)
  moreover have "set idxs \<subseteq> {..<n}" using Cons.prems(1) by simp
  ultimately have "withinResponse n (fold (scanPackage E ps pkgName dir base isTestFile) idxs
      (scanPackage E ps pkgName dir base isTestFile i s))"
    by (rule Cons.IH [rotated])
  then show ?case by simp
qed

lemma findPackage_within:
  "withinResponse (length ps) (findPackage E ps pkgName dir base isTestFile)"
  unfolding findPackage_def
  by (rule scanPackages_within) (auto simp: withinResponse_def)

lemma findPackage_bounds:
  "pkg (findPackage E ps pkgName dir base isTestFile) = Some j \<Longrightarrow> j < length ps"
  "testVariantOf (findPackage E ps pkgName dir base isTestFile) = Some t \<Longrightarrow> t < length ps"
  using findPackage_within [of ps E pkgName dir base isTestFile]
  by (simp_all add: withinResponse_def)

lemma newPackage_Proceed:
  assumes "newPackage E opath contents dir pkgName isTestFile tvo st = Proceed x"
  obtains pkgPath0 pkgPath ident where
    "getPkgPath E dir = Inr (pkgPath0, True)"
    "pkgPath = (if HasSuffix pkgName ''_test'' then pkgPath0 @ ''_test'' else pkgPath0)"
    "ident = (if isTestFile \<and> \<not> HasSuffix pkgName ''_test''
              then pkgPath @ '' ['' @ pkgPath @ ''.test]'' else pkgPath)"
    "x = reclaimOrCreate E opath contents pkgName pkgPath ident isTestFile
           (HasSuffix pkgName ''_test'') tvo st"
proof (cases "getPkgPath E dir")
  case (Inl err)
  with assms show thesis by (simp add: newPackage_def)
next
  case (Inr r)
  obtain pkgPath0 ok where r: "r = (pkgPath0, ok)" by (cases r)
  show thesis
  proof (cases ok)
    case False
    with assms Inr r show thesis by (simp add: newPackage_def)
  next
    case True
    with assms Inr r have
      "x = reclaimOrCreate E opath contents pkgName
         (if HasSuffix pkgName ''_test'' then pkgPath0 @ ''_test'' else pkgPath0)
         (if isTestFile \<and> \<not> HasSuffix pkgName ''_test''
          then (if HasSuffix pkgName ''_test'' then pkgPath0 @ ''_test'' else pkgPath0)
                 @ '' ['' @ (if HasSuffix pkgName ''_test'' then pkgPath0 @ ''_test''
                             else pkgPath0) @ ''.test]''
          else (if HasSuffix pkgName ''_test'' then pkgPath0 @ ''_test'' else pkgPath0))
         isTestFile (HasSuffix pkgName ''_test'') tvo st"
      by (simp add: newPackage_def Let_def)
    with Inr r True show thesis by (intro that [of pkgPath0]) simp_all
  qed
qed

text \<open>What \<^const>\<open>resolvePackage\<close> hands on, case by case.\<close>

lemma resolvePackage_cases:
  assumes "resolvePackage E opath contents pkgName st = Proceed (s, i, st1)"
  obtains (found)
      "s = findPackage E (Packages st) pkgName (filepath_Dir E opath) (filepath_Base E opath)
             (HasSuffix opath ''_test.go'')"
      "pkg s = Some i" "i < length (Packages st)" "st1 = st"
  | (synthesized) pkgPath0 pkgPath ident where
      "s = findPackage E (Packages st) pkgName (filepath_Dir E opath) (filepath_Base E opath)
             (HasSuffix opath ''_test.go'')"
      "pkg s = None"
      "getPkgPath E (filepath_Dir E opath) = Inr (pkgPath0, True)"
      "pkgPath = (if HasSuffix pkgName ''_test'' then pkgPath0 @ ''_test'' else pkgPath0)"
      "ident = (if HasSuffix opath ''_test.go'' \<and> \<not> HasSuffix pkgName ''_test''
                then pkgPath @ '' ['' @ pkgPath @ ''.test]'' else pkgPath)"
      "reclaimOrCreate E opath contents pkgName pkgPath ident (HasSuffix opath ''_test.go'')
         (HasSuffix pkgName ''_test'') (testVariantOf s) st = (i, st1)"
proof -
  define s0 where "s0 = findPackage E (Packages st) pkgName (filepath_Dir E opath)
             (filepath_Base E opath) (HasSuffix opath ''_test.go'')"
  have r: "resolvePackage E opath contents pkgName st =
     (case pkg s0 of
        Some i \<Rightarrow> Proceed (s0, i, st)
      | None \<Rightarrow>
          (case newPackage E opath contents (filepath_Dir E opath) pkgName
                  (HasSuffix opath ''_test.go'') (testVariantOf s0) st of
             Return err \<Rightarrow> Return err
           | Break \<Rightarrow> Break
           | Proceed (i, st1) \<Rightarrow> Proceed (s0, i, st1)))"
    unfolding resolvePackage_def Let_def s0_def ..
  show thesis
  proof (cases "pkg s0")
    case (Some j)
    with assms r have e: "s = s0" "i = j" "st1 = st" by auto
    have "j < length (Packages st)"
      using findPackage_bounds(1) Some unfolding s0_def by blast
    with e Some show thesis by (intro found) (auto simp: s0_def)
  next
    case None
    with assms r have s: "s = s0"
      and np: "newPackage E opath contents (filepath_Dir E opath) pkgName
                  (HasSuffix opath ''_test.go'') (testVariantOf s0) st = Proceed (i, st1)"
      by (auto split: ctl.splits)
    from np show thesis
    proof (rule newPackage_Proceed)
      fix pkgPath0 pkgPath ident
      assume "getPkgPath E (filepath_Dir E opath) = Inr (pkgPath0, True)"
        "pkgPath = (if HasSuffix pkgName ''_test'' then pkgPath0 @ ''_test'' else pkgPath0)"
        "ident = (if HasSuffix opath ''_test.go'' \<and> \<not> HasSuffix pkgName ''_test''
              then pkgPath @ '' ['' @ pkgPath @ ''.test]'' else pkgPath)"
        "(i, st1) = reclaimOrCreate E opath contents pkgName pkgPath ident
           (HasSuffix opath ''_test.go'') (HasSuffix pkgName ''_test'') (testVariantOf s0) st"
      with s None show thesis
        by (intro synthesized [of pkgPath0 pkgPath ident]) (auto simp: s0_def)
    qed
  qed
qed

lemma processOverlayFile_cases:
  assumes "processOverlayFile E (opath, contents) st = Proceed st'"
  obtains (skipped) "\<not> snd (extractPackageName E opath contents)" "st' = st"
  | (noImports) pkgName s i st1 err where
      "extractPackageName E opath contents = (pkgName, True)"
      "resolvePackage E opath contents pkgName st = Proceed (s, i, st1)"
      "extractImports E opath contents = Inl err"
      "st' = attachFile opath i (fileExists s) st1"
  | (withImports) pkgName s i st1 imps where
      "extractPackageName E opath contents = (pkgName, True)"
      "resolvePackage E opath contents pkgName st = Proceed (s, i, st1)"
      "extractImports E opath contents = Inr imps"
      "st' = addImports imps i (testVariantOf s) (attachFile opath i (fileExists s) st1)"
proof -
  obtain pkgName ok where pn: "extractPackageName E opath contents = (pkgName, ok)"
    by (cases "extractPackageName E opath contents")
  show thesis
  proof (cases ok)
    case False
    with assms pn show thesis by (intro skipped) (simp_all add: processOverlayFile_def)
  next
    case True
    show thesis
    proof (cases "resolvePackage E opath contents pkgName st")
      case (Proceed x)
      obtain s i st1 where x: "x = (s, i, st1)" by (cases x)
      show thesis
      proof (cases "extractImports E opath contents")
        case (Inl err)
        with assms pn True Proceed x show thesis
          by (intro noImports [of pkgName s i st1 err])
             (simp_all add: processOverlayFile_def Let_def)
      next
        case (Inr imps)
        with assms pn True Proceed x show thesis
          by (intro withImports [of pkgName s i st1 imps])
             (simp_all add: processOverlayFile_def Let_def)
      qed
    next
      case Break
      with assms pn True show thesis by (simp add: processOverlayFile_def)
    next
      case (Return err)
      with assms pn True show thesis by (simp add: processOverlayFile_def)
    qed
  qed
qed

section \<open>Packages are kept\<close>

lemma take_prefix_trans:
  "take (length xs) ys = xs \<Longrightarrow> take (length ys) zs = ys \<Longrightarrow> take (length xs) zs = xs"
  by (metis append_eq_conv_conj append_take_drop_id append.assoc)

lemma kept_refl: "kept p p"
  by (simp add: kept_def)

lemma kept_trans:
  assumes "kept p q" and "kept q r"
  shows "kept p r"
proof -
  have "take (length (GoFiles p)) (GoFiles r) = GoFiles p"
    using assms by (auto simp: kept_def intro: take_prefix_trans)
  moreover have "take (length (CompiledGoFiles p)) (CompiledGoFiles r) = CompiledGoFiles p"
    using assms by (auto simp: kept_def intro: take_prefix_trans)
  moreover have "fst ` set (Imports p) \<subseteq> fst ` set (Imports r)"
    using assms unfolding kept_def by blast
  moreover have "Name r = Name p \<or> Name p = []"
    using assms unfolding kept_def by metis
  moreover have "Errors r = Errors p \<or> Errors r = []"
    using assms unfolding kept_def by metis
  moreover have "ID r = ID p" "PkgPath r = PkgPath p" "OtherFiles r = OtherFiles p"
      "ExportFile r = ExportFile p"
    using assms by (simp_all add: kept_def)
  ultimately show ?thesis by (simp add: kept_def)
qed

lemma grows_refl: "grows ps ps"
  by (simp add: grows_def kept_refl)

lemma grows_trans:
  assumes "grows ps qs" and "grows qs rs"
  shows "grows ps rs"
  unfolding grows_def
proof (intro conjI allI impI)
  show "length ps \<le> length rs" using assms by (simp add: grows_def)
next
  fix i assume i: "i < length ps"
  then have "kept (ps ! i) (qs ! i)" "kept (qs ! i) (rs ! i)"
    using assms by (simp_all add: grows_def)
  then show "kept (ps ! i) (rs ! i)" by (rule kept_trans)
qed

lemma grows_update:
  assumes "i < length ps \<Longrightarrow> kept (ps ! i) q"
  shows "grows ps (ps[i := q])"
  unfolding grows_def
proof (intro conjI allI impI)
  show "length ps \<le> length (ps[i := q])" by simp
next
  fix k assume "k < length ps"
  then show "kept (ps ! k) (ps[i := q] ! k)"
    using assms by (cases "k = i") (simp_all add: kept_refl)
qed

lemma grows_append: "grows ps (ps @ qs)"
  by (simp add: grows_def kept_refl nth_append)

lemma reclaimOrCreate_grows:
  assumes "reclaimOrCreate E opath contents pkgName pkgPath ident isTestFile isXTest tvo st
             = (i, st')"
    and "\<forall>t. tvo = Some t \<longrightarrow> t < length (Packages st)"
  shows "grows (Packages st) (Packages st')"
  using assms
proof (cases rule: reclaimOrCreate_cases)
  case reclaimed
  have "kept (Packages st ! i)
          ((Packages st ! i)\<lparr>Name := fst (extractPackageName E opath contents), Errors := []\<rparr>)"
    using reclaimed(4) by (simp add: kept_def)
  then show ?thesis unfolding reclaimed(2) by (simp add: grows_update)
next
  case (created new)
  then show ?thesis by (simp add: grows_append)
qed

lemma resolvePackage_grows:
  assumes "resolvePackage E opath contents pkgName st = Proceed (s, i, st1)"
  shows "grows (Packages st) (Packages st1)"
  using assms
proof (cases rule: resolvePackage_cases)
  case found
  then show ?thesis by (simp add: grows_refl)
next
  case (synthesized pkgPath0 pkgPath ident)
  from synthesized(6) show ?thesis
    by (rule reclaimOrCreate_grows) (simp add: synthesized(1) findPackage_bounds(2))
qed

lemma attachFile_grows: "grows (Packages st) (Packages (attachFile opath i ex st))"
proof (cases ex)
  case True
  then show ?thesis by (simp add: attachFile_def grows_refl)
next
  case False
  have "kept (Packages st ! i)
          ((Packages st ! i)\<lparr>GoFiles := GoFiles (Packages st ! i) @ [opath],
               CompiledGoFiles := CompiledGoFiles (Packages st ! i) @ [opath]\<rparr>)"
    by (simp add: kept_def)
  with False show ?thesis by (simp add: attachFile_def Let_def grows_update)
qed

lemma update_keys: "fst ` set (AList.update k v al) = insert k (fst ` set al)"
  by (induction al) auto

lemma setImport_grows: "grows ps (setImport ps i imp ident)"
  unfolding setImport_def
  by (rule grows_update) (auto simp: kept_def update_keys)

lemma addImports_skip:
  "map_of (Imports (Packages st ! i)) imp \<noteq> None
     \<Longrightarrow> addImports (imp # imps) i tvo st = addImports imps i tvo st"
  by simp

lemma addImports_add:
  assumes "map_of (Imports (Packages st ! i)) imp = None"
    and "ident = (case havePkgs st imp of Some known \<Rightarrow> known | None \<Rightarrow> imp)"
    and "ps2 = (case tvo of None \<Rightarrow> setImport (Packages st) i imp ident
                | Some t \<Rightarrow> setImport (setImport (Packages st) i imp ident) t imp ident)"
  shows "addImports (imp # imps) i tvo st
           = addImports imps i tvo (st\<lparr>Packages := ps2, overlayAddsImports := True\<rparr>)"
  unfolding assms(2,3) using assms(1) by (simp add: Let_def)

lemma addImports_grows: "grows (Packages st) (Packages (addImports imps i tvo st))"
proof (induction imps arbitrary: st)
  case Nil
  show ?case by (simp add: grows_refl)
next
  case (Cons imp imps)
  show ?case
  proof (cases "map_of (Imports (Packages st ! i)) imp \<noteq> None")
    case True
    then have "addImports (imp # imps) i tvo st = addImports imps i tvo st"
      by (rule addImports_skip)
    then show ?thesis using Cons.IH [of st] by simp
  next
    case False
    define ident where "ident = (case havePkgs st imp of Some known \<Rightarrow> known | None \<Rightarrow> imp)"
    define ps2 where "ps2 =
       (case tvo of None \<Rightarrow> setImport (Packages st) i imp ident
        | Some t \<Rightarrow> setImport (setImport (Packages st) i imp ident) t imp ident)"
    have g: "grows (Packages st) ps2"
      unfolding ps2_def
      by (cases tvo) (auto intro: setImport_grows grows_trans)
    have "grows ps2 (Packages (addImports imps i tvo
            (st\<lparr>Packages := ps2, overlayAddsImports := True\<rparr>)))"
      using Cons.IH [of "st\<lparr>Packages := ps2, overlayAddsImports := True\<rparr>"] by simp
    with g have "grows (Packages st) (Packages (addImports imps i tvo
            (st\<lparr>Packages := ps2, overlayAddsImports := True\<rparr>)))"
      by (rule grows_trans)
    moreover have "addImports (imp # imps) i tvo st
           = addImports imps i tvo (st\<lparr>Packages := ps2, overlayAddsImports := True\<rparr>)"
      using False by (intro addImports_add [OF _ ident_def ps2_def]) simp
    ultimately show ?thesis by simp
  qed
qed

lemma processOverlayFile_grows:
  assumes "processOverlayFile E entry st = Proceed st'"
  shows "grows (Packages st) (Packages st')"
proof -
  obtain opath contents where e: "entry = (opath, contents)" by (cases entry)
  from assms [unfolded e] show ?thesis
  proof (cases rule: processOverlayFile_cases)
    case skipped
    then show ?thesis by (simp add: grows_refl)
  next
    case (noImports pkgName s i st1 err)
    from resolvePackage_grows [OF noImports(2)] attachFile_grows [of st1 opath i "fileExists s"]
    show ?thesis unfolding noImports(4) by (rule grows_trans)
  next
    case (withImports pkgName s i st1 imps)
    from resolvePackage_grows [OF withImports(2)]
      attachFile_grows [of st1 opath i "fileExists s"]
    have "grows (Packages st) (Packages (attachFile opath i (fileExists s) st1))"
      by (rule grows_trans)
    then show ?thesis unfolding withImports(4)
      using addImports_grows grows_trans by blast
  qed
qed

lemma overlayLoop_grows: "grows (Packages st) (Packages (fst (overlayLoop E overlay st)))"
proof (induction overlay arbitrary: st)
  case Nil
  show ?case by (simp add: grows_refl)
next
  case (Cons entry overlay)
  show ?case
  proof (cases "processOverlayFile E entry st")
    case (Proceed st')
    from processOverlayFile_grows [OF Proceed] Cons.IH [of st']
    have "grows (Packages st) (Packages (fst (overlayLoop E overlay st')))"
      by (rule grows_trans)
    with Proceed show ?thesis by simp
  qed (simp_all add: grows_refl)
qed

lemma processGolistOverlay_packages:
  "fst (processGolistOverlay E ps overlay)
     = Packages (fst (overlayLoop E overlay (initialState ps)))"
  by (cases "overlayLoop E overlay (initialState ps)")
     (auto simp: processGolistOverlay_def Let_def split: option.splits)

text \<open>
  Claim C9. No package is deleted: when \<^const>\<open>processGolistOverlay\<close> returns, with
  or without an error, every package it was given is still in the response, at the
  place it had, with its identifier, import path, other files and export file, with
  file lists and import keys that extend the ones it had, and with the name and the
  errors it had unless it was reclaimed.
\<close>

theorem no_package_deleted:
  "length ps \<le> length (fst (processGolistOverlay E ps overlay))
   \<and> (\<forall>i<length ps. kept (ps ! i) (fst (processGolistOverlay E ps overlay) ! i))"
  using overlayLoop_grows [of "initialState ps" E overlay]
  by (simp add: processGolistOverlay_packages grows_def initialState_def)

theorem no_package_deleted_witness:
  "length [pkgA]
     \<le> length (fst (processGolistOverlay sampleEnv [pkgA]
                     [(''/r/a/new.go'', ''package a; import <x>''), (''/r/x/x.go'', ''package x'')]))
   \<and> kept ([pkgA] ! 0)
        (fst (processGolistOverlay sampleEnv [pkgA]
                [(''/r/a/new.go'', ''package a; import <x>''), (''/r/x/x.go'', ''package x'')]) ! 0)
   \<and> length (fst (processGolistOverlay sampleEnv [pkgA]
                [(''/r/a/new.go'', ''package a; import <x>''), (''/r/x/x.go'', ''package x'')])) = 2"
proof -
  have "length (fst (processGolistOverlay sampleEnv [pkgA]
                [(''/r/a/new.go'', ''package a; import <x>''), (''/r/x/x.go'', ''package x'')])) = 2"
    by code_simp
  with no_package_deleted
      [of "[pkgA]" sampleEnv
          "[(''/r/a/new.go'', ''package a; import <x>''), (''/r/x/x.go'', ''package x'')]"]
  show ?thesis by simp
qed

section \<open>Overlay files with a malformed import list\<close>

lemma scanFiles_other_parser:
  "scanFiles (E\<lparr>ParseImportsOnly := f\<rparr>) ps dir base isTestFile i fs s
     = scanFiles E ps dir base isTestFile i fs s"
  by (induction fs arbitrary: s) (simp_all split: labelled.splits)

lemma findPackage_other_parser:
  "findPackage (E\<lparr>ParseImportsOnly := f\<rparr>) ps pkgName dir base isTestFile
     = findPackage E ps pkgName dir base isTestFile"
proof -
  have "scanPackage (E\<lparr>ParseImportsOnly := f\<rparr>) ps pkgName dir base isTestFile
          = scanPackage E ps pkgName dir base isTestFile"
    by (intro ext) (simp add: scanPackage_def scanFiles_other_parser)
  then show ?thesis by (simp add: findPackage_def)
qed

lemma extractPackageName_other_parser:
  "extractPackageName (E\<lparr>ParseImportsOnly := f\<rparr>) opath contents
     = extractPackageName E opath contents"
  by (simp add: extractPackageName_def)

lemma reclaimPackage_other_parser:
  "reclaimPackage (E\<lparr>ParseImportsOnly := f\<rparr>) p ident opath contents
     = reclaimPackage E p ident opath contents"
  by (simp add: reclaimPackage_def extractPackageName_other_parser)

lemma reclaimLoop_other_parser:
  "reclaimLoop (E\<lparr>ParseImportsOnly := f\<rparr>) ident opath contents ps
     = reclaimLoop E ident opath contents ps"
  by (induction ps) (simp_all add: reclaimPackage_other_parser split: prod.splits)

lemma reclaimOrCreate_other_parser:
  "reclaimOrCreate (E\<lparr>ParseImportsOnly := f\<rparr>) opath contents pkgName pkgPath ident
      isTestFile isXTest tvo st
     = reclaimOrCreate E opath contents pkgName pkgPath ident isTestFile isXTest tvo st"
  by (simp add: reclaimOrCreate_def reclaimLoop_other_parser)

lemma newPackage_other_parser:
  "newPackage (E\<lparr>ParseImportsOnly := f\<rparr>) opath contents dir pkgName isTestFile tvo st
     = newPackage E opath contents dir pkgName isTestFile tvo st"
  by (simp add: newPackage_def reclaimOrCreate_other_parser split: sum.splits prod.splits)

lemma resolvePackage_other_parser:
  "resolvePackage (E\<lparr>ParseImportsOnly := f\<rparr>) opath contents pkgName st
     = resolvePackage E opath contents pkgName st"
  by (simp add: resolvePackage_def newPackage_other_parser findPackage_other_parser Let_def
      split: option.splits)

lemma extractImports_none:
  "extractImports (E\<lparr>ParseImportsOnly := (\<lambda>filename src. Inr [])\<rparr>) opath contents = Inr []"
  by (simp add: extractImports_def)

lemma attachFile_frame:
  "overlayAddsImports (attachFile opath i ex st) = overlayAddsImports st"
  "havePkgs (attachFile opath i ex st) = havePkgs st"
  "length (Packages (attachFile opath i ex st)) = length (Packages st)"
  by (simp_all add: attachFile_def Let_def)

lemma attachFile_nth:
  "Imports (Packages (attachFile opath i ex st) ! k) = Imports (Packages st ! k)"
  "PkgPath (Packages (attachFile opath i ex st) ! k) = PkgPath (Packages st ! k)"
  "ID (Packages (attachFile opath i ex st) ! k) = ID (Packages st ! k)"
proof -
  have "Imports (Packages (attachFile opath i ex st) ! k) = Imports (Packages st ! k)
        \<and> PkgPath (Packages (attachFile opath i ex st) ! k) = PkgPath (Packages st ! k)
        \<and> ID (Packages (attachFile opath i ex st) ! k) = ID (Packages st ! k)"
  proof (cases "k = i \<and> i < length (Packages st)")
    case True
    then show ?thesis by (simp add: attachFile_def Let_def)
  next
    case False
    then have "Packages (attachFile opath i ex st) ! k = Packages st ! k"
      by (cases "i < length (Packages st)")
         (auto simp: attachFile_def Let_def list_update_beyond)
    then show ?thesis by simp
  qed
  then show "Imports (Packages (attachFile opath i ex st) ! k) = Imports (Packages st ! k)"
    "PkgPath (Packages (attachFile opath i ex st) ! k) = PkgPath (Packages st ! k)"
    "ID (Packages (attachFile opath i ex st) ! k) = ID (Packages st ! k)"
    by simp_all
qed

lemma resolvePackage_imports:
  assumes "resolvePackage E opath contents pkgName st = Proceed (s, i, st1)"
  shows "overlayAddsImports st1 = overlayAddsImports st
         \<and> map Imports (Packages st1)
             = map Imports (Packages st)
                 @ replicate (length (Packages st1) - length (Packages st)) []"
  using assms
proof (cases rule: resolvePackage_cases)
  case found
  then show ?thesis by simp
next
  case (synthesized pkgPath0 pkgPath ident)
  have tv: "\<forall>t. testVariantOf s = Some t \<longrightarrow> t < length (Packages st)"
    by (simp add: synthesized(1) findPackage_bounds(2))
  from synthesized(6) tv show ?thesis
  proof (cases rule: reclaimOrCreate_cases)
    case reclaimed
    have "map Imports ((Packages st)
            [i := (Packages st ! i)\<lparr>Name := fst (extractPackageName E opath contents),
                                      Errors := []\<rparr>]) = map Imports (Packages st)"
      using reclaimed(1) by (simp add: map_update list_update_same_conv)
    with reclaimed show ?thesis by simp
  next
    case (created new)
    then show ?thesis by simp
  qed
qed

text \<open>
  Claim C2, as the code has it. The file is attached before its imports are read,
  so a malformed import list only leaves the import step out: the iteration ends as
  the iteration for the same file with an empty import list ends (the file is
  appended to its package and the package marked modified, unless a file of that
  base name is there; a package is created or reclaimed for it if none was found),
  no import map gets an entry, the new-imports flag keeps its value, and the error
  of the import list is not returned.
\<close>

theorem malformed_imports_skip_only_the_import_step:
  assumes "extractImports E opath contents = Inl err"
  shows "processOverlayFile E (opath, contents) st
           = processOverlayFile (E\<lparr>ParseImportsOnly := (\<lambda>filename src. Inr [])\<rparr>)
               (opath, contents) st
         \<and> (\<forall>st'. processOverlayFile E (opath, contents) st = Proceed st' \<longrightarrow>
               overlayAddsImports st' = overlayAddsImports st
               \<and> map Imports (Packages st')
                   = map Imports (Packages st)
                       @ replicate (length (Packages st') - length (Packages st)) [])"
proof (intro conjI allI impI)
  show "processOverlayFile E (opath, contents) st
           = processOverlayFile (E\<lparr>ParseImportsOnly := (\<lambda>filename src. Inr [])\<rparr>)
               (opath, contents) st"
    using assms
    by (simp add: processOverlayFile_def extractPackageName_other_parser
        resolvePackage_other_parser extractImports_none Let_def
        split: prod.splits ctl.splits)
next
  fix st' assume "processOverlayFile E (opath, contents) st = Proceed st'"
  then show "overlayAddsImports st' = overlayAddsImports st"
  proof (cases rule: processOverlayFile_cases)
    case skipped
    then show ?thesis by simp
  next
    case (noImports pkgName s i st1 err)
    with resolvePackage_imports [OF noImports(2)] show ?thesis
      by (simp add: attachFile_frame)
  next
    case (withImports pkgName s i st1 imps)
    with assms show ?thesis by simp
  qed
next
  fix st' assume "processOverlayFile E (opath, contents) st = Proceed st'"
  then show "map Imports (Packages st')
                   = map Imports (Packages st)
                       @ replicate (length (Packages st') - length (Packages st)) []"
  proof (cases rule: processOverlayFile_cases)
    case skipped
    then show ?thesis by simp
  next
    case (noImports pkgName s i st1 err)
    have "map Imports (Packages (attachFile opath i (fileExists s) st1))
            = map Imports (Packages st1)"
      by (rule nth_equalityI) (simp_all add: attachFile_frame attachFile_nth)
    with resolvePackage_imports [OF noImports(2)] noImports(4) show ?thesis
      by (simp add: attachFile_frame)
  next
    case (withImports pkgName s i st1 imps)
    with assms show ?thesis by simp
  qed
qed

theorem malformed_imports_skip_only_the_import_step_witness:
  "extractImports sampleEnv ''/r/a/bad.go'' ''package a; import ('' = Inl ''expected import path''
   \<and> processOverlayFile sampleEnv (''/r/a/bad.go'', ''package a; import ('') (initialState [pkgA])
       = processOverlayFile (sampleEnv\<lparr>ParseImportsOnly := (\<lambda>filename src. Inr [])\<rparr>)
           (''/r/a/bad.go'', ''package a; import ('') (initialState [pkgA])
   \<and> processOverlayFile sampleEnv (''/r/a/bad.go'', ''package a; import ('') (initialState [pkgA])
       = Proceed ((initialState [pkgA])
           \<lparr>Packages := [pkgA\<lparr>GoFiles := [''/r/a/a.go'', ''/r/a/bad.go''],
                               CompiledGoFiles := [''/r/a/a.go'', ''/r/a/bad.go'']\<rparr>],
            modifiedPkgsSet := [''pkg/a'']\<rparr>)"
proof -
  have h: "extractImports sampleEnv ''/r/a/bad.go'' ''package a; import (''
             = Inl ''expected import path''"
    by (simp add: extractImports_def sampleEnv_def sampleSources_def)
  have run: "processOverlayFile sampleEnv (''/r/a/bad.go'', ''package a; import ('')
               (initialState [pkgA])
       = Proceed ((initialState [pkgA])
           \<lparr>Packages := [pkgA\<lparr>GoFiles := [''/r/a/a.go'', ''/r/a/bad.go''],
                               CompiledGoFiles := [''/r/a/a.go'', ''/r/a/bad.go'']\<rparr>],
            modifiedPkgsSet := [''pkg/a'']\<rparr>)"
    by (simp add: processOverlayFile_def resolvePackage_def extractPackageName_def
        extractImports_def findPackage_def scanPackage_def variantCheck_def hasTestFiles_def
        HasSuffix_def attachFile_def initialState_def Let_def
        sampleEnv_def sampleSources_def sampleDir_def sampleBase_def pkgA_def emptyPackage_def)
  from h run malformed_imports_skip_only_the_import_step [OF h, of "initialState [pkgA]"]
  show ?thesis by simp
qed

text \<open>
  Claim C2 as the spec words it has the file excluded: appended to no file list,
  and no identifier added to the modified set. The file is appended to both file
  lists of its package, and the package is in the modified set.
\<close>

theorem malformed_imports_file_attached_counterexample:
  "snd (extractPackageName sampleEnv ''/r/a/bad.go'' ''package a; import ('')
   \<and> extractImports sampleEnv ''/r/a/bad.go'' ''package a; import (''
       = Inl ''expected import path''
   \<and> processGolistOverlay sampleEnv [pkgA] [(''/r/a/bad.go'', ''package a; import ('')]
       = ([pkgA\<lparr>GoFiles := [''/r/a/a.go'', ''/r/a/bad.go''],
                CompiledGoFiles := [''/r/a/a.go'', ''/r/a/bad.go'']\<rparr>],
          Inr ([''pkg/a''], None))"
  by code_simp

section \<open>Overlay files in a directory that no root covers\<close>

text \<open>
  Claim C1 at an overlay of two files, the first in a directory that no root
  covers. The \<^verbatim>\<open>break\<close> of line 93 leaves the loop over the overlay, so the second
  file is not looked at: it is attached to no package and nothing is marked
  modified. With the two files in the other order the second one is attached.
\<close>

theorem uncovered_directory_ends_the_loop:
  "getPkgPath sampleEnv (filepath_Dir sampleEnv ''/out/c.go'') = Inr ('''', False)
   \<and> processGolistOverlay sampleEnv [pkgA]
        [(''/out/c.go'', ''package x''), (''/r/a/new.go'', ''package a'')]
       = ([pkgA], Inr ([], None))
   \<and> processGolistOverlay sampleEnv [pkgA]
        [(''/r/a/new.go'', ''package a''), (''/out/c.go'', ''package x'')]
       = ([pkgA\<lparr>GoFiles := [''/r/a/a.go'', ''/r/a/new.go''],
                CompiledGoFiles := [''/r/a/a.go'', ''/r/a/new.go'']\<rparr>],
          Inr ([''pkg/a''], None))"
  by code_simp

section \<open>Import steps write import maps only\<close>

lemma setImport_frame:
  "length (setImport ps i imp ident) = length ps"
  "GoFiles (setImport ps i imp ident ! k) = GoFiles (ps ! k)"
  "CompiledGoFiles (setImport ps i imp ident ! k) = CompiledGoFiles (ps ! k)"
  "ID (setImport ps i imp ident ! k) = ID (ps ! k)"
  "PkgPath (setImport ps i imp ident ! k) = PkgPath (ps ! k)"
proof -
  have "setImport ps i imp ident ! k = ps ! k
        \<or> setImport ps i imp ident ! k
             = (ps ! k)\<lparr>Imports := AList.update imp ident (Imports (ps ! k))\<rparr>"
    by (cases "i < length ps"; cases "k = i")
       (simp_all add: setImport_def list_update_beyond)
  then show "GoFiles (setImport ps i imp ident ! k) = GoFiles (ps ! k)"
    "CompiledGoFiles (setImport ps i imp ident ! k) = CompiledGoFiles (ps ! k)"
    "ID (setImport ps i imp ident ! k) = ID (ps ! k)"
    "PkgPath (setImport ps i imp ident ! k) = PkgPath (ps ! k)"
    by auto
  show "length (setImport ps i imp ident) = length ps"
    by (simp add: setImport_def)
qed

lemma addImports_frame:
  "length (Packages (addImports imps i tvo st)) = length (Packages st)
   \<and> havePkgs (addImports imps i tvo st) = havePkgs st
   \<and> modifiedPkgsSet (addImports imps i tvo st) = modifiedPkgsSet st
   \<and> GoFiles (Packages (addImports imps i tvo st) ! k) = GoFiles (Packages st ! k)
   \<and> CompiledGoFiles (Packages (addImports imps i tvo st) ! k)
       = CompiledGoFiles (Packages st ! k)
   \<and> ID (Packages (addImports imps i tvo st) ! k) = ID (Packages st ! k)
   \<and> PkgPath (Packages (addImports imps i tvo st) ! k) = PkgPath (Packages st ! k)"
proof (induction imps arbitrary: st)
  case Nil
  show ?case by simp
next
  case (Cons imp imps)
  show ?case
  proof (cases "map_of (Imports (Packages st ! i)) imp \<noteq> None")
    case True
    then have "addImports (imp # imps) i tvo st = addImports imps i tvo st"
      by (rule addImports_skip)
    then show ?thesis using Cons.IH [of st] by simp
  next
    case False
    define ident where "ident = (case havePkgs st imp of Some known \<Rightarrow> known | None \<Rightarrow> imp)"
    define ps2 where "ps2 =
       (case tvo of None \<Rightarrow> setImport (Packages st) i imp ident
        | Some t \<Rightarrow> setImport (setImport (Packages st) i imp ident) t imp ident)"
    have eq: "addImports (imp # imps) i tvo st
           = addImports imps i tvo (st\<lparr>Packages := ps2, overlayAddsImports := True\<rparr>)"
      using False by (intro addImports_add [OF _ ident_def ps2_def]) simp
    have "length ps2 = length (Packages st)
          \<and> GoFiles (ps2 ! k) = GoFiles (Packages st ! k)
          \<and> CompiledGoFiles (ps2 ! k) = CompiledGoFiles (Packages st ! k)
          \<and> ID (ps2 ! k) = ID (Packages st ! k)
          \<and> PkgPath (ps2 ! k) = PkgPath (Packages st ! k)"
      unfolding ps2_def by (cases tvo) (simp_all add: setImport_frame)
    with Cons.IH [of "st\<lparr>Packages := ps2, overlayAddsImports := True\<rparr>"] eq
    show ?thesis by simp
  qed
qed

section \<open>A test file beside a production package without tests\<close>

lemma scanFiles_no_file_in_dir:
  "\<forall>f\<in>set fs. \<not> sameFile E (filepath_Dir E f) dir
     \<Longrightarrow> scanFiles E ps dir base isTestFile i fs s = s"
  by (induction fs arbitrary: s) simp_all

lemma scanFiles_production_package:
  "\<exists>f\<in>set fs. sameFile E (filepath_Dir E f) dir \<Longrightarrow> \<not> hasTestFiles (ps ! i)
     \<Longrightarrow> scanFiles E ps dir base True i fs s = s\<lparr>testVariantOf := Some i\<rparr>"
  by (induction fs arbitrary: s) auto

lemma fold_other_indices:
  "\<forall>j\<in>set js. f j s = s \<Longrightarrow> fold f js s = s"
  by (induction js) simp_all

lemma findPackage_only_production:
  assumes i: "i < length ps"
    and match: "Name (ps ! i) = pkgName \<or> ID (ps ! i) = ''command-line-arguments''"
    and indir: "\<exists>f\<in>set (GoFiles (ps ! i)). sameFile E (filepath_Dir E f) dir"
    and noTests: "\<not> hasTestFiles (ps ! i)"
    and others: "\<forall>j<length ps. j \<noteq> i \<longrightarrow>
        \<not> ((Name (ps ! j) = pkgName \<or> ID (ps ! j) = ''command-line-arguments'')
           \<and> (\<exists>f\<in>set (GoFiles (ps ! j)). sameFile E (filepath_Dir E f) dir))"
  shows "findPackage E ps pkgName dir base True
           = \<lparr>pkg = None, testVariantOf = Some i, fileExists = False\<rparr>"
proof -
  let ?f = "scanPackage E ps pkgName dir base True"
  have other: "?f j s = s" if "j < length ps" "j \<noteq> i" for j s
  proof (cases "Name (ps ! j) = pkgName \<or> ID (ps ! j) = ''command-line-arguments''")
    case True
    with others that have "\<forall>f\<in>set (GoFiles (ps ! j)). \<not> sameFile E (filepath_Dir E f) dir"
      by blast
    then show ?thesis by (simp add: scanPackage_def scanFiles_no_file_in_dir)
  next
    case False
    then show ?thesis by (auto simp: scanPackage_def)
  qed
  have this_one: "?f i s = s\<lparr>testVariantOf := Some i\<rparr>" for s
    using match scanFiles_production_package [OF indir noTests]
    by (auto simp: scanPackage_def)
  have split: "[0..<length ps] = [0..<i] @ i # [Suc i..<length ps]"
    using i by (metis le0 upt_conv_Cons upt_add_eq_append le_add_diff_inverse less_imp_le_nat)
  have before: "fold ?f [0..<i] s = s" for s
    by (rule fold_other_indices) (use i other in auto)
  have after: "fold ?f [Suc i..<length ps] s = s" for s
    by (rule fold_other_indices) (use other in auto)
  show ?thesis
    unfolding findPackage_def split
    by (simp add: before after this_one)
qed

lemma reclaimLoop_fresh_identifier:
  "\<forall>p\<in>set ps. ID p \<noteq> ident \<Longrightarrow> reclaimLoop E ident opath contents ps = (None, ps)"
  by (induction ps) (simp_all add: reclaimPackage_def)

text \<open>
  Claim C5, as the code has it. Take an overlay test file (its path ends in
  \<^verbatim>\<open>_test.go\<close>, the name it declares does not end in \<^verbatim>\<open>_test\<close>), a package \<open>i\<close> of
  the response that matches it (by name, or as \<^verbatim>\<open>command-line-arguments\<close>), has a
  file in the file's directory and has no test file, and let no other package
  match. Let, besides, the root directory map cover the directory and give \<open>path\<close>
  for it, and let no package of the response carry the identifier
  \<open>path [path.test]\<close>. Then the iteration for the file, from any state of the loop
  with these packages, adds one package at the end of the response, with that
  identifier and with the file lists of package \<open>i\<close> followed by the overlay file;
  and so does reconciliation of the overlay that holds just this file.
\<close>

theorem test_file_creates_test_variant:
  assumes test: "HasSuffix opath ''_test.go''"
    and name: "extractPackageName E opath contents = (pkgName, True)"
    and notX: "\<not> HasSuffix pkgName ''_test''"
    and i: "i < length ps"
    and match: "Name (ps ! i) = pkgName \<or> ID (ps ! i) = ''command-line-arguments''"
    and indir: "\<exists>f\<in>set (GoFiles (ps ! i)).
                  sameFile E (filepath_Dir E f) (filepath_Dir E opath)"
    and noTests: "\<not> hasTestFiles (ps ! i)"
    and others: "\<forall>j<length ps. j \<noteq> i \<longrightarrow>
        \<not> ((Name (ps ! j) = pkgName \<or> ID (ps ! j) = ''command-line-arguments'')
           \<and> (\<exists>f\<in>set (GoFiles (ps ! j)).
                 sameFile E (filepath_Dir E f) (filepath_Dir E opath)))"
    and root: "getPkgPath E (filepath_Dir E opath) = Inr (path, True)"
    and fresh: "\<forall>p\<in>set ps. ID p \<noteq> path @ '' ['' @ path @ ''.test]''"
  shows "(\<forall>st. Packages st = ps \<longrightarrow>
           (\<exists>st' rest new. processOverlayFile E (opath, contents) st = Proceed st'
              \<and> Packages st' = rest @ [new] \<and> length rest = length ps
              \<and> ID new = path @ '' ['' @ path @ ''.test]''
              \<and> GoFiles new = GoFiles (ps ! i) @ [opath]
              \<and> CompiledGoFiles new = CompiledGoFiles (ps ! i) @ [opath]))
         \<and> (\<exists>rest new. fst (processGolistOverlay E ps [(opath, contents)]) = rest @ [new]
              \<and> length rest = length ps
              \<and> ID new = path @ '' ['' @ path @ ''.test]''
              \<and> GoFiles new = GoFiles (ps ! i) @ [opath]
              \<and> CompiledGoFiles new = CompiledGoFiles (ps ! i) @ [opath])"
proof -
  define ident where "ident = path @ '' ['' @ path @ ''.test]''"
  define new0 where "new0 = \<lparr>ID = ident, Name = pkgName, PkgPath = path, Errors = [],
      GoFiles = GoFiles (ps ! i), CompiledGoFiles = CompiledGoFiles (ps ! i),
      OtherFiles = [], ExportFile = [], Imports = []\<rparr>"
  define s where "s = \<lparr>pkg = None, testVariantOf = Some i, fileExists = False\<rparr>"
  have step: "\<exists>st' rest new. processOverlayFile E (opath, contents) st = Proceed st'
              \<and> Packages st' = rest @ [new] \<and> length rest = length ps
              \<and> ID new = ident
              \<and> GoFiles new = GoFiles (ps ! i) @ [opath]
              \<and> CompiledGoFiles new = CompiledGoFiles (ps ! i) @ [opath]"
    if ps: "Packages st = ps" for st
  proof -
    have fp: "findPackage E (Packages st) pkgName (filepath_Dir E opath)
                (filepath_Base E opath) True = s"
      unfolding s_def ps
      by (simp add: findPackage_only_production [OF i match indir noTests others])
    have rl: "reclaimLoop E ident opath contents ps = (None, ps)"
      using fresh by (simp add: reclaimLoop_fresh_identifier ident_def)
    define st1 where "st1 = st\<lparr>Packages := ps @ [new0],
                                havePkgs := (havePkgs st)(path \<mapsto> ident)\<rparr>"
    have roc: "reclaimOrCreate E opath contents pkgName path ident True False (Some i) st
                 = (length ps, st1)"
      using i by (simp add: reclaimOrCreate_def ps rl Let_def addPackage_def nth_append
          st1_def new0_def)
    have rp: "resolvePackage E opath contents pkgName st = Proceed (s, length ps, st1)"
      using test notX roc
      by (simp add: resolvePackage_def fp Let_def s_def newPackage_def root ident_def)
    define st2 where "st2 = attachFile opath (length ps) False st1"
    have st2: "Packages st2 = ps @ [new0\<lparr>GoFiles := GoFiles (ps ! i) @ [opath],
                  CompiledGoFiles := CompiledGoFiles (ps ! i) @ [opath]\<rparr>]"
      by (simp add: st2_def attachFile_def st1_def Let_def new0_def)
    have "\<exists>st' imps. processOverlayFile E (opath, contents) st = Proceed st'
            \<and> st' = addImports imps (length ps) (Some i) st2"
    proof (cases "extractImports E opath contents")
      case (Inl err)
      then have "processOverlayFile E (opath, contents) st
                   = Proceed (addImports [] (length ps) (Some i) st2)"
        by (simp add: processOverlayFile_def name rp Let_def s_def st2_def)
      then show ?thesis by blast
    next
      case (Inr imps)
      then have "processOverlayFile E (opath, contents) st
                   = Proceed (addImports imps (length ps) (Some i) st2)"
        by (simp add: processOverlayFile_def name rp Let_def s_def st2_def)
      then show ?thesis by blast
    qed
    then obtain st' imps where run: "processOverlayFile E (opath, contents) st = Proceed st'"
      and st': "st' = addImports imps (length ps) (Some i) st2"
      by blast
    have len: "length (Packages st') = Suc (length ps)"
      using st' st2 addImports_frame [of imps "length ps" "Some i" st2] by simp
    have last: "ID (Packages st' ! length ps) = ident
        \<and> GoFiles (Packages st' ! length ps) = GoFiles (ps ! i) @ [opath]
        \<and> CompiledGoFiles (Packages st' ! length ps) = CompiledGoFiles (ps ! i) @ [opath]"
      using st' st2 addImports_frame [of imps "length ps" "Some i" st2 "length ps"]
      by (simp add: new0_def)
    have "Packages st' = take (length ps) (Packages st') @ [Packages st' ! length ps]"
      using len by (metis lessI take_Suc_conv_app_nth take_all order_refl)
    with run len last show ?thesis
      by (intro exI [of _ st'] exI [of _ "take (length ps) (Packages st')"]
          exI [of _ "Packages st' ! length ps"]) auto
  qed
  have whole: "\<exists>rest new. fst (processGolistOverlay E ps [(opath, contents)]) = rest @ [new]
              \<and> length rest = length ps
              \<and> ID new = ident
              \<and> GoFiles new = GoFiles (ps ! i) @ [opath]
              \<and> CompiledGoFiles new = CompiledGoFiles (ps ! i) @ [opath]"
  proof -
    have "Packages (initialState ps) = ps" by (simp add: initialState_def)
    from step [OF this] obtain st' rest new where
      "processOverlayFile E (opath, contents) (initialState ps) = Proceed st'"
      "Packages st' = rest @ [new]" "length rest = length ps" "ID new = ident"
      "GoFiles new = GoFiles (ps ! i) @ [opath]"
      "CompiledGoFiles new = CompiledGoFiles (ps ! i) @ [opath]"
      by blast
    then show ?thesis
      by (simp add: processGolistOverlay_packages)
  qed
  from step whole show ?thesis unfolding ident_def by blast
qed

theorem test_file_creates_test_variant_witness:
  "HasSuffix ''/r/b/x_test.go'' ''_test.go''
   \<and> extractPackageName sampleEnv ''/r/b/x_test.go'' ''package b'' = (''b'', True)
   \<and> \<not> HasSuffix ''b'' ''_test''
   \<and> \<not> hasTestFiles ([pkgA, pkgB] ! 1)
   \<and> getPkgPath sampleEnv (filepath_Dir sampleEnv ''/r/b/x_test.go'') = Inr (''pkg/b'', True)
   \<and> (\<exists>rest new.
         fst (processGolistOverlay sampleEnv [pkgA, pkgB] [(''/r/b/x_test.go'', ''package b'')])
           = rest @ [new]
         \<and> length rest = length [pkgA, pkgB]
         \<and> ID new = ''pkg/b'' @ '' ['' @ ''pkg/b'' @ ''.test]''
         \<and> GoFiles new = GoFiles ([pkgA, pkgB] ! 1) @ [''/r/b/x_test.go'']
         \<and> CompiledGoFiles new = CompiledGoFiles ([pkgA, pkgB] ! 1) @ [''/r/b/x_test.go''])"
proof -
  have test: "HasSuffix ''/r/b/x_test.go'' ''_test.go''"
    by (simp add: HasSuffix_def)
  have name: "extractPackageName sampleEnv ''/r/b/x_test.go'' ''package b'' = (''b'', True)"
    by (simp add: extractPackageName_def sampleEnv_def sampleSources_def)
  have notX: "\<not> HasSuffix ''b'' ''_test''"
    by (simp add: HasSuffix_def)
  have i: "1 < length [pkgA, pkgB]" by simp
  have match: "Name ([pkgA, pkgB] ! 1) = ''b'' \<or> ID ([pkgA, pkgB] ! 1) = ''command-line-arguments''"
    by (simp add: pkgB_def emptyPackage_def)
  have indir: "\<exists>f\<in>set (GoFiles ([pkgA, pkgB] ! 1)).
      sameFile sampleEnv (filepath_Dir sampleEnv f) (filepath_Dir sampleEnv ''/r/b/x_test.go'')"
    by (simp add: pkgB_def emptyPackage_def sampleEnv_def sampleDir_def)
  have noTests: "\<not> hasTestFiles ([pkgA, pkgB] ! 1)"
    by (simp add: hasTestFiles_def HasSuffix_def pkgB_def emptyPackage_def)
  have others: "\<forall>j<length [pkgA, pkgB]. j \<noteq> 1 \<longrightarrow>
        \<not> ((Name ([pkgA, pkgB] ! j) = ''b'' \<or> ID ([pkgA, pkgB] ! j) = ''command-line-arguments'')
           \<and> (\<exists>f\<in>set (GoFiles ([pkgA, pkgB] ! j)).
                 sameFile sampleEnv (filepath_Dir sampleEnv f)
                   (filepath_Dir sampleEnv ''/r/b/x_test.go'')))"
    by (simp add: less_Suc_eq pkgA_def emptyPackage_def sampleEnv_def sampleDir_def)
  have root: "getPkgPath sampleEnv (filepath_Dir sampleEnv ''/r/b/x_test.go'')
                = Inr (''pkg/b'', True)"
    by (simp add: sampleEnv_def sampleDir_def sampleRoots_def)
  have fresh: "\<forall>p\<in>set [pkgA, pkgB]. ID p \<noteq> ''pkg/b'' @ '' ['' @ ''pkg/b'' @ ''.test]''"
    by (simp add: pkgA_def pkgB_def emptyPackage_def)
  from test_file_creates_test_variant
         [OF test name notX i match indir noTests others root fresh]
  have "\<exists>rest new.
         fst (processGolistOverlay sampleEnv [pkgA, pkgB] [(''/r/b/x_test.go'', ''package b'')])
           = rest @ [new]
         \<and> length rest = length [pkgA, pkgB]
         \<and> ID new = ''pkg/b'' @ '' ['' @ ''pkg/b'' @ ''.test]''
         \<and> GoFiles new = GoFiles ([pkgA, pkgB] ! 1) @ [''/r/b/x_test.go'']
         \<and> CompiledGoFiles new = CompiledGoFiles ([pkgA, pkgB] ! 1) @ [''/r/b/x_test.go'']"
    by (rule conjunct2)
  with test name notX noTests root show ?thesis by (intro conjI)
qed

text \<open>
  Claim C5 as the spec words it has the package created for every such test file.
  In the first response the package \<open>o\<close> lies in a directory that no root covers:
  the loop is left at line 93 and the response stays as it was. In the second the
  lister has left a placeholder with the identifier of the test variant: it is
  reclaimed at lines 104 to 109, no package is added, and the production files
  are not copied, the copy of lines 116 to 119 being part of the creation only.
\<close>

theorem test_file_without_new_package_counterexample:
  "HasSuffix ''/out/o_test.go'' ''_test.go''
   \<and> extractPackageName sampleEnv ''/out/o_test.go'' ''package o'' = (''o'', True)
   \<and> \<not> hasTestFiles pkgO
   \<and> getPkgPath sampleEnv (filepath_Dir sampleEnv ''/out/o_test.go'') = Inr ('''', False)
   \<and> processGolistOverlay sampleEnv [pkgO] [(''/out/o_test.go'', ''package o'')]
       = ([pkgO], Inr ([], None))
   \<and> getPkgPath sampleEnv (filepath_Dir sampleEnv ''/r/b/x_test.go'') = Inr (''pkg/b'', True)
   \<and> processGolistOverlay sampleEnv [pkgB, placeholderBTest]
        [(''/r/b/x_test.go'', ''package b'')]
       = ([pkgB,
           placeholderBTest\<lparr>Name := ''b'', Errors := [],
              GoFiles := [''/r/b/x_test.go''], CompiledGoFiles := [''/r/b/x_test.go'']\<rparr>],
          Inr ([''pkg/b [pkg/b.test]''], None))"
  by code_simp

section \<open>A file that is in a package is not appended to it again\<close>

lemma scanFiles_same_package:
  assumes "pkg s = Some i" and "\<not> (isTestFile \<and> \<not> hasTestFiles (ps ! i))"
  shows "pkg (scanFiles E ps dir base isTestFile i fs s) = Some i
         \<and> (fileExists (scanFiles E ps dir base isTestFile i fs s)
              \<longleftrightarrow> fileExists s
                  \<or> (\<exists>f\<in>set fs. sameFile E (filepath_Dir E f) dir \<and> filepath_Base E f = base))"
  using assms(1)
proof (induction fs arbitrary: s)
  case Nil
  then show ?case by simp
next
  case (Cons f fs)
  have vc: "variantCheck ps i s = Fallthrough s"
    using Cons.prems by (simp add: variantCheck_def)
  show ?case
  proof (cases "sameFile E (filepath_Dir E f) dir")
    case False
    with Cons.IH [OF Cons.prems] show ?thesis by simp
  next
    case True
    define s1 where "s1 = s\<lparr>pkg := Some i,
        fileExists := (if filepath_Base E f = base then True else fileExists s)\<rparr>"
    have "pkg s1 = Some i" by (simp add: s1_def)
    from Cons.IH [OF this] True assms(2) vc show ?thesis
      by (auto simp: s1_def)
  qed
qed

lemma scanFiles_pkg_fileExists:
  "(pkg (scanFiles E ps dir base isTestFile i fs s) = pkg s
      \<and> fileExists (scanFiles E ps dir base isTestFile i fs s) = fileExists s)
   \<or> (pkg (scanFiles E ps dir base isTestFile i fs s) = Some i
      \<and> (fileExists (scanFiles E ps dir base isTestFile i fs s)
            \<longleftrightarrow> fileExists s
                \<or> (\<exists>f\<in>set fs. sameFile E (filepath_Dir E f) dir
                                \<and> filepath_Base E f = base)))"
proof (induction fs arbitrary: s)
  case Nil
  show ?case by simp
next
  case (Cons f fs)
  show ?case
  proof (cases "sameFile E (filepath_Dir E f) dir")
    case False
    with Cons.IH [of s] show ?thesis by simp
  next
    case same: True
    show ?thesis
    proof (cases "isTestFile \<and> \<not> hasTestFiles (ps ! i)")
      case True
      with same show ?thesis by simp
    next
      case noTest: False
      show ?thesis
      proof (cases "variantCheck ps i s")
        case (ContinueNextPackage s')
        then have "pkg s' = pkg s" "fileExists s' = fileExists s"
          by (auto simp: variantCheck_def split: option.splits if_splits)
        with same noTest ContinueNextPackage show ?thesis by auto
      next
        case (Fallthrough s')
        then have s': "pkg s' = pkg s" "fileExists s' = fileExists s"
          by (auto simp: variantCheck_def split: option.splits if_splits)
        define s1 where "s1 = s'\<lparr>pkg := Some i,
            fileExists := (if filepath_Base E f = base then True else fileExists s')\<rparr>"
        have "pkg s1 = Some i" by (simp add: s1_def)
        from scanFiles_same_package [OF this noTest, of E dir base fs]
          same noTest Fallthrough s'
        show ?thesis by (auto simp: s1_def)
      qed
    qed
  qed
qed

text \<open>
  The search finds out that a path is already among the files of the package it
  settles on, as long as \<^verbatim>\<open>sameFile\<close> holds of the path's own directory.
\<close>

lemma scanPackages_fileExists:
  assumes same: "sameFile E (filepath_Dir E target) dir" and base: "filepath_Base E target = base"
    and inv: "\<forall>j. pkg s = Some j \<longrightarrow> target \<in> set (GoFiles (ps ! j)) \<longrightarrow> fileExists s"
  shows "\<forall>j. pkg (fold (scanPackage E ps pkgName dir base isTestFile) idxs s) = Some j
              \<longrightarrow> target \<in> set (GoFiles (ps ! j))
              \<longrightarrow> fileExists (fold (scanPackage E ps pkgName dir base isTestFile) idxs s)"
  using inv
proof (induction idxs arbitrary: s)
  case Nil
  then show ?case by simp
next
  case (Cons i idxs)
  define s' where "s' = scanPackage E ps pkgName dir base isTestFile i s"
  have "\<forall>j. pkg s' = Some j \<longrightarrow> target \<in> set (GoFiles (ps ! j)) \<longrightarrow> fileExists s'"
  proof (cases "pkgName \<noteq> Name (ps ! i) \<and> ID (ps ! i) \<noteq> ''command-line-arguments''")
    case True
    then have "s' = s" by (simp add: s'_def scanPackage_def)
    with Cons.prems show ?thesis by simp
  next
    case False
    then have eq: "s' = scanFiles E ps dir base isTestFile i (GoFiles (ps ! i)) s"
      by (auto simp: s'_def scanPackage_def)
    from scanFiles_pkg_fileExists [of E ps dir base isTestFile i "GoFiles (ps ! i)" s]
    show ?thesis
    proof
      assume "pkg (scanFiles E ps dir base isTestFile i (GoFiles (ps ! i)) s) = pkg s
        \<and> fileExists (scanFiles E ps dir base isTestFile i (GoFiles (ps ! i)) s) = fileExists s"
      with Cons.prems eq show ?thesis by simp
    next
      assume "pkg (scanFiles E ps dir base isTestFile i (GoFiles (ps ! i)) s) = Some i
        \<and> (fileExists (scanFiles E ps dir base isTestFile i (GoFiles (ps ! i)) s)
            \<longleftrightarrow> fileExists s
                \<or> (\<exists>f\<in>set (GoFiles (ps ! i)). sameFile E (filepath_Dir E f) dir
                                \<and> filepath_Base E f = base))"
      with eq same base show ?thesis by auto
    qed
  qed
  from Cons.IH [OF this] show ?case by (simp add: s'_def)
qed

lemma findPackage_fileExists:
  assumes "sameFile E (filepath_Dir E target) dir" and "filepath_Base E target = base"
    and "pkg (findPackage E ps pkgName dir base isTestFile) = Some i"
    and "target \<in> set (GoFiles (ps ! i))"
  shows "fileExists (findPackage E ps pkgName dir base isTestFile)"
  using scanPackages_fileExists [OF assms(1,2), of
      "\<lparr>pkg = None, testVariantOf = None, fileExists = False\<rparr>" ps pkgName isTestFile
      "[0..<length ps]"] assms(3,4)
  by (simp add: findPackage_def)

lemma appendedFiles_refl: "appendedFiles A p p"
  by (simp add: appendedFiles_def)

lemma appendedFiles_same:
  "GoFiles p' = GoFiles p \<Longrightarrow> CompiledGoFiles p' = CompiledGoFiles p \<Longrightarrow> appendedFiles A p p'"
  by (simp add: appendedFiles_def)

lemma appendedFiles_one:
  "opath \<notin> set (GoFiles p) \<Longrightarrow> opath \<in> A \<Longrightarrow> GoFiles p' = GoFiles p @ [opath]
     \<Longrightarrow> CompiledGoFiles p' = CompiledGoFiles p @ [opath] \<Longrightarrow> appendedFiles A p p'"
  unfolding appendedFiles_def by (intro exI [of _ "[opath]"]) simp

lemma appendedFiles_trans:
  assumes "appendedFiles A p q" and "appendedFiles B q r"
  shows "appendedFiles (A \<union> B) p r"
proof -
  from assms(1) obtain as where as: "GoFiles q = GoFiles p @ as"
      "CompiledGoFiles q = CompiledGoFiles p @ as" "distinct as"
      "set as \<inter> set (GoFiles p) = {}" "set as \<subseteq> A"
    unfolding appendedFiles_def by blast
  from assms(2) obtain bs where bs: "GoFiles r = GoFiles q @ bs"
      "CompiledGoFiles r = CompiledGoFiles q @ bs" "distinct bs"
      "set bs \<inter> set (GoFiles q) = {}" "set bs \<subseteq> B"
    unfolding appendedFiles_def by blast
  have "GoFiles r = GoFiles p @ (as @ bs)" "CompiledGoFiles r = CompiledGoFiles p @ (as @ bs)"
    using as bs by simp_all
  moreover have "distinct (as @ bs)" using as bs by auto
  moreover have "set (as @ bs) \<inter> set (GoFiles p) = {}" using as bs by auto
  moreover have "set (as @ bs) \<subseteq> A \<union> B" using as bs by auto
  ultimately show ?thesis unfolding appendedFiles_def by blast
qed

lemma attachFile_package:
  "Packages (attachFile opath i ex st) ! k =
     (if \<not> ex \<and> k = i \<and> i < length (Packages st)
      then (Packages st ! i)\<lparr>GoFiles := GoFiles (Packages st ! i) @ [opath],
                              CompiledGoFiles := CompiledGoFiles (Packages st ! i) @ [opath]\<rparr>
      else Packages st ! k)"
  by (cases "i < length (Packages st)")
     (auto simp: attachFile_def Let_def list_update_beyond)

lemma resolve_attach_appends:
  assumes same: "sameFile E (filepath_Dir E opath) (filepath_Dir E opath)"
    and rp: "resolvePackage E opath contents pkgName st = Proceed (s, i, st1)"
    and k: "k < length (Packages st)"
  shows "appendedFiles {opath} (Packages st ! k)
           (Packages (attachFile opath i (fileExists s) st1) ! k)"
  using rp
proof (cases rule: resolvePackage_cases)
  case found
  show ?thesis
  proof (cases "\<not> fileExists s \<and> k = i")
    case True
    have "opath \<notin> set (GoFiles (Packages st ! i))"
    proof
      assume "opath \<in> set (GoFiles (Packages st ! i))"
      with findPackage_fileExists [OF same refl, of "Packages st" pkgName
          "HasSuffix opath ''_test.go''" i] found(1,2)
      have "fileExists s" by simp
      with True show False by simp
    qed
    with True found show ?thesis
      by (intro appendedFiles_one [of opath]) (simp_all add: attachFile_package)
  next
    case False
    with found show ?thesis
      by (intro appendedFiles_same) (auto simp: attachFile_package)
  qed
next
  case (synthesized pkgPath0 pkgPath ident)
  have tv: "\<forall>t. testVariantOf s = Some t \<longrightarrow> t < length (Packages st)"
    by (simp add: synthesized(1) findPackage_bounds(2))
  from synthesized(6) tv show ?thesis
  proof (cases rule: reclaimOrCreate_cases)
    case reclaimed
    show ?thesis
    proof (cases "\<not> fileExists s \<and> k = i")
      case True
      with reclaimed show ?thesis
        by (intro appendedFiles_one [of opath]) (simp_all add: attachFile_package)
    next
      case False
      with reclaimed k show ?thesis
        by (intro appendedFiles_same)
           (auto simp: attachFile_package nth_list_update)
    qed
  next
    case (created new)
    with k show ?thesis
      by (intro appendedFiles_same) (simp_all add: attachFile_package nth_append)
  qed
qed

lemma processOverlayFile_appends:
  assumes same: "sameFile E (filepath_Dir E opath) (filepath_Dir E opath)"
    and run: "processOverlayFile E (opath, contents) st = Proceed st'"
    and k: "k < length (Packages st)"
  shows "appendedFiles {opath} (Packages st ! k) (Packages st' ! k)"
  using run
proof (cases rule: processOverlayFile_cases)
  case skipped
  then show ?thesis by (simp add: appendedFiles_refl)
next
  case (noImports pkgName s i st1 err)
  from resolve_attach_appends [OF same noImports(2) k] noImports(4) show ?thesis by simp
next
  case (withImports pkgName s i st1 imps)
  define st2 where "st2 = attachFile opath i (fileExists s) st1"
  have a: "appendedFiles {opath} (Packages st ! k) (Packages st2 ! k)"
    unfolding st2_def by (rule resolve_attach_appends [OF same withImports(2) k])
  have "appendedFiles {} (Packages st2 ! k) (Packages (addImports imps i (testVariantOf s) st2) ! k)"
    using addImports_frame [of imps i "testVariantOf s" st2 k]
    by (intro appendedFiles_same) simp_all
  with a have "appendedFiles ({opath} \<union> {}) (Packages st ! k)
      (Packages (addImports imps i (testVariantOf s) st2) ! k)"
    by (rule appendedFiles_trans)
  then show ?thesis by (simp add: withImports(4) st2_def)
qed

lemma overlayLoop_appends:
  assumes same: "\<forall>d. sameFile E d d" and k: "k < length (Packages st)"
  shows "appendedFiles (fst ` set overlay) (Packages st ! k)
           (Packages (fst (overlayLoop E overlay st)) ! k)"
  using k
proof (induction overlay arbitrary: st)
  case Nil
  show ?case by (simp add: appendedFiles_refl)
next
  case (Cons entry overlay)
  obtain opath contents where e: "entry = (opath, contents)" by (cases entry)
  show ?case
  proof (cases "processOverlayFile E entry st")
    case (Proceed st')
    have "grows (Packages st) (Packages st')" using Proceed by (rule processOverlayFile_grows)
    with Cons.prems have k': "k < length (Packages st')" by (simp add: grows_def)
    have "appendedFiles {opath} (Packages st ! k) (Packages st' ! k)"
      using same Proceed Cons.prems unfolding e by (intro processOverlayFile_appends) auto
    from appendedFiles_trans [OF this Cons.IH [OF k']] Proceed e
    show ?thesis by simp
  qed (simp_all add: appendedFiles_refl)
qed

lemma reconcileRuns_length: "length ps \<le> length (reconcileRuns E ps overlays)"
proof (induction overlays arbitrary: ps)
  case Nil
  show ?case by simp
next
  case (Cons overlay overlays)
  have "length ps \<le> length (fst (processGolistOverlay E ps overlay))"
    using overlayLoop_grows [of "initialState ps" E overlay]
    by (simp add: processGolistOverlay_packages grows_def initialState_def)
  with Cons.IH [of "fst (processGolistOverlay E ps overlay)"] show ?case by simp
qed

lemma reconcileRuns_appends:
  assumes same: "\<forall>d. sameFile E d d" and k: "k < length ps"
  shows "appendedFiles (fst ` (\<Union>overlay\<in>set overlays. set overlay)) (ps ! k)
           (reconcileRuns E ps overlays ! k)"
  using k
proof (induction overlays arbitrary: ps)
  case Nil
  show ?case by (simp add: appendedFiles_refl)
next
  case (Cons overlay overlays)
  define ps' where "ps' = fst (processGolistOverlay E ps overlay)"
  have a: "appendedFiles (fst ` set overlay) (ps ! k) (ps' ! k)"
    using overlayLoop_appends [OF same, of k "initialState ps" overlay] Cons.prems
    by (simp add: ps'_def processGolistOverlay_packages initialState_def)
  have "length ps \<le> length ps'"
    using reconcileRuns_length [of ps E "[overlay]"] by (simp add: ps'_def)
  with Cons.prems have "k < length ps'" by simp
  from appendedFiles_trans [OF a Cons.IH [OF this]]
  show ?case by (simp add: ps'_def image_Un)
qed

text \<open>
  Claim C7. Let \<^verbatim>\<open>sameFile\<close> hold of every directory and itself. However often
  reconciliation is run, each run on the packages the run before left and on any
  overlay (the same one again, in any order of its files), a package that was in
  the response at the start ends with the file lists it had followed by overlay
  files that it did not have, each of them appended once, and the same ones to
  its regular and to its compiled file list.
\<close>

theorem overlay_file_appended_at_most_once:
  assumes "\<forall>d. sameFile E d d" and "k < length ps"
  shows "\<exists>as. GoFiles (reconcileRuns E ps overlays ! k) = GoFiles (ps ! k) @ as
             \<and> CompiledGoFiles (reconcileRuns E ps overlays ! k) = CompiledGoFiles (ps ! k) @ as
             \<and> distinct as \<and> set as \<inter> set (GoFiles (ps ! k)) = {}
             \<and> set as \<subseteq> fst ` (\<Union>overlay\<in>set overlays. set overlay)"
  using reconcileRuns_appends [OF assms, of overlays]
  by (simp add: appendedFiles_def)

theorem overlay_file_appended_at_most_once_witness:
  "(\<forall>d. sameFile sampleEnv d d)
   \<and> (\<exists>as. GoFiles (reconcileRuns sampleEnv [pkgA]
                 [[(''/r/a/new.go'', ''package a'')], [(''/r/a/new.go'', ''package a'')]] ! 0)
             = GoFiles ([pkgA] ! 0) @ as
         \<and> CompiledGoFiles (reconcileRuns sampleEnv [pkgA]
                 [[(''/r/a/new.go'', ''package a'')], [(''/r/a/new.go'', ''package a'')]] ! 0)
             = CompiledGoFiles ([pkgA] ! 0) @ as
         \<and> distinct as \<and> set as \<inter> set (GoFiles ([pkgA] ! 0)) = {}
         \<and> set as \<subseteq> fst ` (\<Union>overlay\<in>set [[(''/r/a/new.go'', ''package a'')],
                                             [(''/r/a/new.go'', ''package a'')]]. set overlay))
   \<and> GoFiles (reconcileRuns sampleEnv [pkgA]
                 [[(''/r/a/new.go'', ''package a'')], [(''/r/a/new.go'', ''package a'')]] ! 0)
       = [''/r/a/a.go'', ''/r/a/new.go'']"
proof -
  have same: "\<forall>d. sameFile sampleEnv d d" by (simp add: sampleEnv_def)
  have k: "0 < length [pkgA]" by simp
  have run: "GoFiles (reconcileRuns sampleEnv [pkgA]
                 [[(''/r/a/new.go'', ''package a'')], [(''/r/a/new.go'', ''package a'')]] ! 0)
       = [''/r/a/a.go'', ''/r/a/new.go'']"
    by code_simp
  from same run overlay_file_appended_at_most_once [OF same k,
      of "[[(''/r/a/new.go'', ''package a'')], [(''/r/a/new.go'', ''package a'')]]"]
  show ?thesis by (intro conjI)
qed

section \<open>Import entries and the needed packages\<close>

lemma update_sets: "(k, v) \<in> set (AList.update k v al)"
  by (induction al) auto

lemma update_keeps_other: "(k', v') \<in> set al \<Longrightarrow> k' \<noteq> k \<Longrightarrow> (k', v') \<in> set (AList.update k v al)"
  by (induction al) auto

lemma update_persists:
  "(k', v') \<in> set al \<Longrightarrow> k' \<noteq> k \<or> v = v' \<Longrightarrow> (k', v') \<in> set (AList.update k v al)"
  using update_sets update_keeps_other by metis

lemma setImport_package:
  "setImport ps j imp ident ! k =
     (if k = j \<and> j < length ps
      then (ps ! k)\<lparr>Imports := AList.update imp ident (Imports (ps ! k))\<rparr>
      else ps ! k)"
  by (cases "j < length ps") (auto simp: setImport_def list_update_beyond)

lemma setImport_persists:
  "(imp, imp) \<in> set (Imports (ps ! k)) \<Longrightarrow> imp' \<noteq> imp \<or> ident = imp
     \<Longrightarrow> (imp, imp) \<in> set (Imports (setImport ps j imp' ident ! k))"
  by (auto simp: setImport_package intro: update_persists)

lemma setImport_sets:
  "i < length ps \<Longrightarrow> (imp, ident) \<in> set (Imports (setImport ps i imp ident ! i))"
  by (simp add: setImport_package update_sets)

lemma setImport_other_key:
  "imp' \<noteq> imp
     \<Longrightarrow> map_of (Imports (setImport ps j imp' ident ! k)) imp = map_of (Imports (ps ! k)) imp"
  by (simp add: setImport_package update_conv')

lemma addImports_flags:
  "havePkgs (addImports imps i tvo st) = havePkgs st
   \<and> (overlayAddsImports st \<longrightarrow> overlayAddsImports (addImports imps i tvo st))"
proof (induction imps arbitrary: st)
  case Nil
  show ?case by simp
next
  case (Cons imp imps)
  show ?case
  proof (cases "map_of (Imports (Packages st ! i)) imp \<noteq> None")
    case True
    then have "addImports (imp # imps) i tvo st = addImports imps i tvo st"
      by (rule addImports_skip)
    then show ?thesis using Cons.IH [of st] by simp
  next
    case False
    define ident where "ident = (case havePkgs st imp of Some known \<Rightarrow> known | None \<Rightarrow> imp)"
    define ps2 where "ps2 =
       (case tvo of None \<Rightarrow> setImport (Packages st) i imp ident
        | Some t \<Rightarrow> setImport (setImport (Packages st) i imp ident) t imp ident)"
    have eq: "addImports (imp # imps) i tvo st
           = addImports imps i tvo (st\<lparr>Packages := ps2, overlayAddsImports := True\<rparr>)"
      using False by (intro addImports_add [OF _ ident_def ps2_def]) simp
    with Cons.IH [of "st\<lparr>Packages := ps2, overlayAddsImports := True\<rparr>"]
    show ?thesis by simp
  qed
qed

lemma addImports_nothing_new:
  "\<forall>imp\<in>set imps. map_of (Imports (Packages st ! i)) imp \<noteq> None
     \<Longrightarrow> addImports imps i tvo st = st"
  by (induction imps) simp_all

lemma addImports_persists:
  assumes "havePkgs st imp = None" and "(imp, imp) \<in> set (Imports (Packages st ! k))"
  shows "(imp, imp) \<in> set (Imports (Packages (addImports imps i tvo st) ! k))"
  using assms
proof (induction imps arbitrary: st)
  case Nil
  then show ?case by simp
next
  case (Cons imp' imps)
  show ?case
  proof (cases "map_of (Imports (Packages st ! i)) imp' \<noteq> None")
    case True
    then have "addImports (imp' # imps) i tvo st = addImports imps i tvo st"
      by (rule addImports_skip)
    then show ?thesis using Cons.IH [OF Cons.prems] by simp
  next
    case False
    define ident where "ident = (case havePkgs st imp' of Some known \<Rightarrow> known | None \<Rightarrow> imp')"
    define ps2 where "ps2 =
       (case tvo of None \<Rightarrow> setImport (Packages st) i imp' ident
        | Some t \<Rightarrow> setImport (setImport (Packages st) i imp' ident) t imp' ident)"
    have eq: "addImports (imp' # imps) i tvo st
           = addImports imps i tvo (st\<lparr>Packages := ps2, overlayAddsImports := True\<rparr>)"
      using False by (intro addImports_add [OF _ ident_def ps2_def]) simp
    have id: "imp' \<noteq> imp \<or> ident = imp"
      using Cons.prems(1) by (auto simp: ident_def)
    have "(imp, imp) \<in> set (Imports (ps2 ! k))"
      unfolding ps2_def using Cons.prems(2) id
      by (cases tvo) (auto intro!: setImport_persists)
    with Cons.IH [of "st\<lparr>Packages := ps2, overlayAddsImports := True\<rparr>"] Cons.prems(1) eq
    show ?thesis by simp
  qed
qed

lemma addImports_introduces:
  assumes "imp \<in> set imps" and "map_of (Imports (Packages st ! i)) imp = None"
    and "havePkgs st imp = None" and "i < length (Packages st)"
  shows "(imp, imp) \<in> set (Imports (Packages (addImports imps i tvo st) ! i))
         \<and> overlayAddsImports (addImports imps i tvo st)"
  using assms
proof (induction imps arbitrary: st)
  case Nil
  then show ?case by simp
next
  case (Cons imp' imps)
  show ?case
  proof (cases "map_of (Imports (Packages st ! i)) imp' \<noteq> None")
    case True
    then have eq: "addImports (imp' # imps) i tvo st = addImports imps i tvo st"
      by (rule addImports_skip)
    from True Cons.prems(2) have "imp' \<noteq> imp" by auto
    with Cons.prems(1) have "imp \<in> set imps" by simp
    from Cons.IH [OF this Cons.prems(2,3,4)] eq show ?thesis by simp
  next
    case False
    define ident where "ident = (case havePkgs st imp' of Some known \<Rightarrow> known | None \<Rightarrow> imp')"
    define ps2 where "ps2 =
       (case tvo of None \<Rightarrow> setImport (Packages st) i imp' ident
        | Some t \<Rightarrow> setImport (setImport (Packages st) i imp' ident) t imp' ident)"
    define st2 where "st2 = st\<lparr>Packages := ps2, overlayAddsImports := True\<rparr>"
    have eq: "addImports (imp' # imps) i tvo st = addImports imps i tvo st2"
      unfolding st2_def using False by (intro addImports_add [OF _ ident_def ps2_def]) simp
    have len: "length ps2 = length (Packages st)"
      unfolding ps2_def by (cases tvo) (simp_all add: setImport_frame)
    show ?thesis
    proof (cases "imp' = imp")
      case True
      then have ident: "ident = imp" using Cons.prems(3) by (simp add: ident_def)
      have "(imp, imp) \<in> set (Imports (setImport (Packages st) i imp' ident ! i))"
        using setImport_sets [OF Cons.prems(4), of imp' ident] True ident by simp
      then have "(imp, imp) \<in> set (Imports (ps2 ! i))"
        unfolding ps2_def using ident
        by (cases tvo) (auto intro!: setImport_persists)
      then have "(imp, imp) \<in> set (Imports (Packages st2 ! i))" by (simp add: st2_def)
      moreover have "havePkgs st2 imp = None" using Cons.prems(3) by (simp add: st2_def)
      ultimately have "(imp, imp) \<in> set (Imports (Packages (addImports imps i tvo st2) ! i))"
        by (intro addImports_persists)
      moreover have "overlayAddsImports (addImports imps i tvo st2)"
        using addImports_flags [of imps i tvo st2] by (simp add: st2_def)
      ultimately show ?thesis using eq by simp
    next
      case False
      with Cons.prems(1) have mem: "imp \<in> set imps" by auto
      have "map_of (Imports (ps2 ! i)) imp = None"
        unfolding ps2_def using False Cons.prems(2)
        by (cases tvo) (simp_all add: setImport_other_key)
      then have "map_of (Imports (Packages st2 ! i)) imp = None" by (simp add: st2_def)
      moreover have "havePkgs st2 imp = None" using Cons.prems(3) by (simp add: st2_def)
      moreover have "i < length (Packages st2)" using len Cons.prems(4) by (simp add: st2_def)
      ultimately show ?thesis using Cons.IH [OF mem] eq by simp
    qed
  qed
qed

lemma resolvePackage_index:
  assumes "resolvePackage E opath contents pkgName st = Proceed (s, i, st1)"
  shows "i < length (Packages st1)"
  using assms
proof (cases rule: resolvePackage_cases)
  case found
  then show ?thesis by simp
next
  case (synthesized pkgPath0 pkgPath ident)
  have tv: "\<forall>t. testVariantOf s = Some t \<longrightarrow> t < length (Packages st)"
    by (simp add: synthesized(1) findPackage_bounds(2))
  from synthesized(6) tv show ?thesis
    by (cases rule: reclaimOrCreate_cases) simp_all
qed

lemma resolvePackage_havePkgs:
  assumes "resolvePackage E opath contents pkgName st = Proceed (s, i, st1)"
  shows "dom (havePkgs st) \<subseteq> dom (havePkgs st1)
         \<and> dom (havePkgs st1) \<subseteq> dom (havePkgs st) \<union> PkgPath ` set (Packages st1)"
  using assms
proof (cases rule: resolvePackage_cases)
  case found
  then show ?thesis by simp
next
  case (synthesized pkgPath0 pkgPath ident)
  have tv: "\<forall>t. testVariantOf s = Some t \<longrightarrow> t < length (Packages st)"
    by (simp add: synthesized(1) findPackage_bounds(2))
  from synthesized(6) tv show ?thesis
  proof (cases rule: reclaimOrCreate_cases)
    case reclaimed
    then show ?thesis by simp
  next
    case (created new)
    then show ?thesis by auto
  qed
qed

lemma resolvePackage_imports_nth:
  assumes "resolvePackage E opath contents pkgName st = Proceed (s, i, st1)"
    and "k < length (Packages st)"
  shows "Imports (Packages st1 ! k) = Imports (Packages st ! k)"
proof -
  have g: "length (Packages st) \<le> length (Packages st1)"
    using resolvePackage_grows [OF assms(1)] by (simp add: grows_def)
  have "map Imports (Packages st1) ! k
          = (map Imports (Packages st)
               @ replicate (length (Packages st1) - length (Packages st)) []) ! k"
    using resolvePackage_imports [OF assms(1)] by simp
  with assms(2) g show ?thesis by (simp add: nth_append)
qed

lemma grows_PkgPath: "grows ps ps' \<Longrightarrow> PkgPath ` set ps \<subseteq> PkgPath ` set ps'"
proof
  fix x assume g: "grows ps ps'" and "x \<in> PkgPath ` set ps"
  then obtain k where k: "k < length ps" "x = PkgPath (ps ! k)"
    by (auto simp: in_set_conv_nth)
  with g have "k < length ps'" "PkgPath (ps' ! k) = x"
    by (auto simp: grows_def kept_def)
  then show "x \<in> PkgPath ` set ps'" by (metis imageI nth_mem)
qed

text \<open>What an iteration that goes on to the next file does to the state of the loop.\<close>

lemma processOverlayFile_state:
  assumes run: "processOverlayFile E (opath, contents) st = Proceed st'"
  shows "dom (havePkgs st) \<subseteq> dom (havePkgs st')"
    and "dom (havePkgs st') \<subseteq> dom (havePkgs st) \<union> PkgPath ` set (Packages st')"
    and "overlayAddsImports st \<Longrightarrow> overlayAddsImports st'"
    and "k < length (Packages st) \<Longrightarrow> havePkgs st' imp = None
           \<Longrightarrow> (imp, imp) \<in> set (Imports (Packages st ! k))
           \<Longrightarrow> (imp, imp) \<in> set (Imports (Packages st' ! k))"
    and "introduces E (opath, contents) st imp \<Longrightarrow> havePkgs st' imp = None
           \<Longrightarrow> \<exists>i<length (Packages st'). (imp, imp) \<in> set (Imports (Packages st' ! i))
                   \<and> overlayAddsImports st'"
    and "\<forall>imp. \<not> introduces E (opath, contents) st imp
           \<Longrightarrow> overlayAddsImports st' = overlayAddsImports st"
proof -
  have "dom (havePkgs st) \<subseteq> dom (havePkgs st')
    \<and> dom (havePkgs st') \<subseteq> dom (havePkgs st) \<union> PkgPath ` set (Packages st')
    \<and> (overlayAddsImports st \<longrightarrow> overlayAddsImports st')
    \<and> (k < length (Packages st) \<longrightarrow> havePkgs st' imp = None
           \<longrightarrow> (imp, imp) \<in> set (Imports (Packages st ! k))
           \<longrightarrow> (imp, imp) \<in> set (Imports (Packages st' ! k)))
    \<and> (introduces E (opath, contents) st imp \<longrightarrow> havePkgs st' imp = None
           \<longrightarrow> (\<exists>i<length (Packages st'). (imp, imp) \<in> set (Imports (Packages st' ! i))
                   \<and> overlayAddsImports st'))
    \<and> ((\<forall>imp. \<not> introduces E (opath, contents) st imp)
           \<longrightarrow> overlayAddsImports st' = overlayAddsImports st)"
    using run
  proof (cases rule: processOverlayFile_cases)
    case skipped
    then have "\<not> introduces E (opath, contents) st imp"
      by (cases "extractPackageName E opath contents") (simp add: introduces_def)
    with skipped show ?thesis by simp
  next
    case (noImports pkgName s i st1 err)
    define st2 where "st2 = attachFile opath i (fileExists s) st1"
    have no: "\<not> introduces E (opath, contents) st imp"
      by (simp add: introduces_def noImports(1,2,3))
    have hp: "havePkgs st2 = havePkgs st1" and fl: "overlayAddsImports st2 = overlayAddsImports st1"
      and len: "length (Packages st2) = length (Packages st1)"
      by (simp_all add: st2_def attachFile_frame)
    have pp: "PkgPath ` set (Packages st1) \<subseteq> PkgPath ` set (Packages st2)"
      unfolding st2_def by (intro grows_PkgPath attachFile_grows)
    have im: "Imports (Packages st2 ! k) = Imports (Packages st1 ! k)"
      by (simp add: st2_def attachFile_nth)
    have c12: "dom (havePkgs st) \<subseteq> dom (havePkgs st2)
        \<and> dom (havePkgs st2) \<subseteq> dom (havePkgs st) \<union> PkgPath ` set (Packages st2)"
      using resolvePackage_havePkgs [OF noImports(2)] pp unfolding hp by blast
    have c3: "overlayAddsImports st2 = overlayAddsImports st"
      using resolvePackage_imports [OF noImports(2)] fl by simp
    have c4: "k < length (Packages st) \<longrightarrow>
        Imports (Packages st2 ! k) = Imports (Packages st ! k)"
      using resolvePackage_imports_nth [OF noImports(2), of k] im by simp
    have c6: "\<forall>imp. \<not> introduces E (opath, contents) st imp"
      by (simp add: introduces_def noImports(1,2,3))
    from c12 c3 c4 c6 show ?thesis
      unfolding noImports(4) st2_def [symmetric] by simp
  next
    case (withImports pkgName s i st1 imps)
    define st2 where "st2 = attachFile opath i (fileExists s) st1"
    have st': "st' = addImports imps i (testVariantOf s) st2"
      by (simp add: withImports(4) st2_def)
    have hp: "havePkgs st2 = havePkgs st1" and fl: "overlayAddsImports st2 = overlayAddsImports st1"
      and len: "length (Packages st2) = length (Packages st1)"
      by (simp_all add: st2_def attachFile_frame)
    have im: "Imports (Packages st2 ! j) = Imports (Packages st1 ! j)" for j
      by (simp add: st2_def attachFile_nth)
    have hp': "havePkgs st' = havePkgs st1"
      using addImports_flags [of imps i "testVariantOf s" st2] hp by (simp add: st')
    have len': "length (Packages st') = length (Packages st1)"
      using addImports_frame [of imps i "testVariantOf s" st2] len by (simp add: st')
    have pp: "PkgPath ` set (Packages st1) \<subseteq> PkgPath ` set (Packages st')"
    proof -
      have "grows (Packages st1) (Packages st2)" unfolding st2_def by (rule attachFile_grows)
      moreover have "grows (Packages st2) (Packages st')" unfolding st' by (rule addImports_grows)
      ultimately show ?thesis by (intro grows_PkgPath) (rule grows_trans)
    qed
    have c12: "dom (havePkgs st) \<subseteq> dom (havePkgs st')
        \<and> dom (havePkgs st') \<subseteq> dom (havePkgs st) \<union> PkgPath ` set (Packages st')"
      using resolvePackage_havePkgs [OF withImports(2)] pp unfolding hp' by blast
    have c3: "overlayAddsImports st \<longrightarrow> overlayAddsImports st'"
      using resolvePackage_imports [OF withImports(2)] fl
        addImports_flags [of imps i "testVariantOf s" st2] by (simp add: st')
    have c4: "k < length (Packages st) \<longrightarrow> havePkgs st' imp = None
           \<longrightarrow> (imp, imp) \<in> set (Imports (Packages st ! k))
           \<longrightarrow> (imp, imp) \<in> set (Imports (Packages st' ! k))"
    proof (intro impI)
      assume k: "k < length (Packages st)" and h: "havePkgs st' imp = None"
        and m: "(imp, imp) \<in> set (Imports (Packages st ! k))"
      have "(imp, imp) \<in> set (Imports (Packages st2 ! k))"
        using resolvePackage_imports_nth [OF withImports(2) k] m im by simp
      moreover have "havePkgs st2 imp = None" using h hp hp' by simp
      ultimately show "(imp, imp) \<in> set (Imports (Packages st' ! k))"
        unfolding st' by (intro addImports_persists)
    qed
    have intro_iff: "introduces E (opath, contents) st imp'
        \<longleftrightarrow> imp' \<in> set imps \<and> map_of (Imports (Packages st1 ! i)) imp' = None" for imp'
      by (simp add: introduces_def withImports(1,2,3))
    have c5: "introduces E (opath, contents) st imp \<longrightarrow> havePkgs st' imp = None
           \<longrightarrow> (\<exists>i<length (Packages st'). (imp, imp) \<in> set (Imports (Packages st' ! i))
                   \<and> overlayAddsImports st')"
    proof (intro impI)
      assume "introduces E (opath, contents) st imp" and h: "havePkgs st' imp = None"
      then have "imp \<in> set imps" "map_of (Imports (Packages st2 ! i)) imp = None"
        by (simp_all add: intro_iff im)
      moreover have "havePkgs st2 imp = None" using h hp hp' by simp
      moreover have "i < length (Packages st2)"
        using resolvePackage_index [OF withImports(2)] len by simp
      ultimately have "(imp, imp) \<in> set (Imports (Packages st' ! i)) \<and> overlayAddsImports st'"
        unfolding st' by (intro addImports_introduces)
      moreover have "i < length (Packages st')"
        using resolvePackage_index [OF withImports(2)] len' by simp
      ultimately show "\<exists>i<length (Packages st'). (imp, imp) \<in> set (Imports (Packages st' ! i))
                   \<and> overlayAddsImports st'"
        by blast
    qed
    have c6: "(\<forall>imp. \<not> introduces E (opath, contents) st imp)
           \<longrightarrow> overlayAddsImports st' = overlayAddsImports st"
    proof (intro impI)
      assume "\<forall>imp. \<not> introduces E (opath, contents) st imp"
      then have "\<forall>imp\<in>set imps. map_of (Imports (Packages st2 ! i)) imp \<noteq> None"
        by (simp add: intro_iff im)
      then have "st' = st2" unfolding st' by (rule addImports_nothing_new)
      with fl resolvePackage_imports [OF withImports(2)]
      show "overlayAddsImports st' = overlayAddsImports st" by simp
    qed
    from c12 c3 c4 c5 c6 show ?thesis by blast
  qed
  then show "dom (havePkgs st) \<subseteq> dom (havePkgs st')"
    and "dom (havePkgs st') \<subseteq> dom (havePkgs st) \<union> PkgPath ` set (Packages st')"
    and "overlayAddsImports st \<Longrightarrow> overlayAddsImports st'"
    and "k < length (Packages st) \<Longrightarrow> havePkgs st' imp = None
           \<Longrightarrow> (imp, imp) \<in> set (Imports (Packages st ! k))
           \<Longrightarrow> (imp, imp) \<in> set (Imports (Packages st' ! k))"
    and "introduces E (opath, contents) st imp \<Longrightarrow> havePkgs st' imp = None
           \<Longrightarrow> \<exists>i<length (Packages st'). (imp, imp) \<in> set (Imports (Packages st' ! i))
                   \<and> overlayAddsImports st'"
    and "\<forall>imp. \<not> introduces E (opath, contents) st imp
           \<Longrightarrow> overlayAddsImports st' = overlayAddsImports st"
    by blast+
qed

lemma introduces_Proceed:
  assumes "introduces E entry st imp"
  obtains st' where "processOverlayFile E entry st = Proceed st'"
proof -
  obtain opath contents where e: "entry = (opath, contents)" by (cases entry)
  obtain pkgName ok where pn: "extractPackageName E opath contents = (pkgName, ok)"
    by (cases "extractPackageName E opath contents")
  from assms e pn have ok: "ok" by (simp add: introduces_def)
  from assms e pn ok obtain x where rp: "resolvePackage E opath contents pkgName st = Proceed x"
    by (cases "resolvePackage E opath contents pkgName st") (simp_all add: introduces_def)
  obtain s i st1 where x: "x = (s, i, st1)" by (cases x)
  have "\<exists>st'. processOverlayFile E entry st = Proceed st'"
    by (cases "extractImports E opath contents")
       (simp_all add: processOverlayFile_def e pn ok rp x Let_def)
  then show thesis using that by blast
qed

text \<open>The same, for the whole loop over the overlay.\<close>

lemma overlayLoop_havePkgs_mono:
  "dom (havePkgs st) \<subseteq> dom (havePkgs (fst (overlayLoop E overlay st)))"
proof (induction overlay arbitrary: st)
  case Nil
  show ?case by simp
next
  case (Cons entry overlay)
  obtain opath contents where e: "entry = (opath, contents)" by (cases entry)
  show ?case
  proof (cases "processOverlayFile E entry st")
    case (Proceed st')
    from processOverlayFile_state(1) [OF Proceed [unfolded e]] Cons.IH [of st']
    have "dom (havePkgs st) \<subseteq> dom (havePkgs (fst (overlayLoop E overlay st')))"
      by blast
    with Proceed show ?thesis by simp
  qed simp_all
qed

lemma subset_chain: "A \<subseteq> B \<union> P \<Longrightarrow> F \<subseteq> A \<union> Q \<Longrightarrow> P \<subseteq> Q \<Longrightarrow> F \<subseteq> B \<union> Q"
  by blast

lemma overlayLoop_havePkgs_paths:
  "dom (havePkgs (fst (overlayLoop E overlay st)))
     \<subseteq> dom (havePkgs st) \<union> PkgPath ` set (Packages (fst (overlayLoop E overlay st)))"
proof (induction overlay arbitrary: st)
  case Nil
  show ?case by simp
next
  case (Cons entry overlay)
  obtain opath contents where e: "entry = (opath, contents)" by (cases entry)
  show ?case
  proof (cases "processOverlayFile E entry st")
    case (Proceed st')
    have "PkgPath ` set (Packages st')
            \<subseteq> PkgPath ` set (Packages (fst (overlayLoop E overlay st')))"
      by (intro grows_PkgPath overlayLoop_grows)
    from processOverlayFile_state(2) [OF Proceed [unfolded e]] Cons.IH [of st'] this
    have "dom (havePkgs (fst (overlayLoop E overlay st')))
            \<subseteq> dom (havePkgs st)
               \<union> PkgPath ` set (Packages (fst (overlayLoop E overlay st')))"
      by (rule subset_chain)
    with Proceed show ?thesis by simp
  qed simp_all
qed

lemma overlayLoop_flag_mono:
  "overlayAddsImports st \<Longrightarrow> overlayAddsImports (fst (overlayLoop E overlay st))"
proof (induction overlay arbitrary: st)
  case Nil
  then show ?case by simp
next
  case (Cons entry overlay)
  obtain opath contents where e: "entry = (opath, contents)" by (cases entry)
  show ?case
  proof (cases "processOverlayFile E entry st")
    case (Proceed st')
    from processOverlayFile_state(3) [OF Proceed [unfolded e] Cons.prems]
    have "overlayAddsImports (fst (overlayLoop E overlay st'))" by (rule Cons.IH)
    with Proceed show ?thesis by simp
  qed (use Cons.prems in simp_all)
qed

lemma overlayLoop_introduces_nothing:
  assumes "\<forall>imp. \<not> overlayIntroduces E overlay st imp"
  shows "overlayAddsImports (fst (overlayLoop E overlay st)) = overlayAddsImports st"
  using assms
proof (induction overlay arbitrary: st)
  case Nil
  show ?case by simp
next
  case (Cons entry overlay)
  obtain opath contents where e: "entry = (opath, contents)" by (cases entry)
  show ?case
  proof (cases "processOverlayFile E entry st")
    case (Proceed st')
    from Cons.prems Proceed have no: "\<forall>imp. \<not> introduces E entry st imp"
      and rest: "\<forall>imp. \<not> overlayIntroduces E overlay st' imp"
      by simp_all
    from processOverlayFile_state(6) [OF Proceed [unfolded e] no [unfolded e]]
      Cons.IH [OF rest] Proceed
    show ?thesis by simp
  qed simp_all
qed

text \<open>The scan of lines 168 to 175.\<close>

lemma neededImports_acc:
  "set acc \<subseteq> set (neededImports have imps acc)
   \<and> (distinct acc \<longrightarrow> distinct (neededImports have imps acc))"
proof (induction imps arbitrary: acc)
  case Nil
  show ?case by simp
next
  case (Cons e imps)
  obtain path ident where e: "e = (path, ident)" by (cases e)
  define acc' where "acc' = (if have (toPkgPath ident) = None
                             then List.insert (toPkgPath ident) acc else acc)"
  have eq: "neededImports have (e # imps) acc = neededImports have imps acc'"
    by (simp add: e acc'_def Let_def)
  have "set acc \<subseteq> set acc'" "distinct acc \<longrightarrow> distinct acc'"
    by (auto simp: acc'_def)
  with Cons.IH [of acc'] show ?case unfolding eq by blast
qed

lemma neededImports_member:
  "(path, ident) \<in> set imps \<Longrightarrow> have (toPkgPath ident) = None
     \<Longrightarrow> toPkgPath ident \<in> set (neededImports have imps acc)"
proof (induction imps arbitrary: acc)
  case Nil
  then show ?case by simp
next
  case (Cons e imps)
  obtain path' ident' where e: "e = (path', ident')" by (cases e)
  show ?case
  proof (cases "(path, ident) = e")
    case True
    with e have id: "ident' = ident" by simp
    have "toPkgPath ident \<in> set (List.insert (toPkgPath ident) acc)" by simp
    moreover have "neededImports have (e # imps) acc
             = neededImports have imps (List.insert (toPkgPath ident) acc)"
      using Cons.prems(2) by (simp add: e id Let_def)
    ultimately show ?thesis
      using neededImports_acc [of "List.insert (toPkgPath ident) acc" "have" imps]
      by (simp only: subset_iff)
  next
    case False
    with Cons.prems(1) have "(path, ident) \<in> set imps" by simp
    from Cons.IH [OF this Cons.prems(2)] show ?thesis by (simp add: e Let_def)
  qed
qed

lemma neededPackages_acc:
  "set acc \<subseteq> set (neededPackages have ps acc)
   \<and> (distinct acc \<longrightarrow> distinct (neededPackages have ps acc))"
proof (induction ps arbitrary: acc)
  case Nil
  show ?case by simp
next
  case (Cons p ps)
  from neededImports_acc [of acc "have" "Imports p"]
    Cons.IH [of "neededImports have (Imports p) acc"]
  have "set acc \<subseteq> set (neededPackages have ps (neededImports have (Imports p) acc))
   \<and> (distinct acc \<longrightarrow>
        distinct (neededPackages have ps (neededImports have (Imports p) acc)))"
    by blast
  then show ?case by simp
qed

lemma neededPackages_member:
  "p \<in> set ps \<Longrightarrow> (path, ident) \<in> set (Imports p) \<Longrightarrow> have (toPkgPath ident) = None
     \<Longrightarrow> toPkgPath ident \<in> set (neededPackages have ps acc)"
proof (induction ps arbitrary: acc)
  case Nil
  then show ?case by simp
next
  case (Cons q ps)
  show ?case
  proof (cases "p = q")
    case True
    with Cons.prems have "toPkgPath ident \<in> set (neededImports have (Imports q) acc)"
      by (simp add: neededImports_member)
    with neededPackages_acc [of "neededImports have (Imports q) acc" "have" ps]
    have "toPkgPath ident \<in> set (neededPackages have ps (neededImports have (Imports q) acc))"
      by blast
    then show ?thesis by simp
  next
    case False
    with Cons.prems(1) have "p \<in> set ps" by simp
    from Cons.IH [OF this Cons.prems(2,3)] show ?thesis by simp
  qed
qed

lemma IndexByte_absent: "c \<notin> set s \<Longrightarrow> IndexByte s c = - 1"
  by (induction s) (auto simp: Let_def)

lemma toPkgPath_no_space: "CHR '' '' \<notin> set ident \<Longrightarrow> toPkgPath ident = ident"
  by (simp add: toPkgPath_def IndexByte_absent Let_def)

lemma count_list_distinct: "distinct xs \<Longrightarrow> x \<in> set xs \<Longrightarrow> count_list xs x = 1"
  by (induction xs) (auto simp: count_list_0_iff)

lemma initHavePkgs_dom: "dom (initHavePkgs ps m) = dom m \<union> PkgPath ` set ps"
  by (induction ps arbitrary: m) auto


lemma subset_absorb: "A \<subseteq> Q \<Longrightarrow> B = A \<Longrightarrow> F \<subseteq> B \<union> Q \<Longrightarrow> F \<subseteq> Q"
  by blast

text \<open>The path that \<^const>\<open>toPkgPath\<close> guesses: the identifier up to its first space.\<close>

lemma IndexByte_takeWhile:
  "IndexByte s c = (if c \<in> set s then int (length (takeWhile (\<lambda>x. x \<noteq> c) s)) else - 1)"
  by (induction s) (auto simp: Let_def)

lemma takeWhile_absent: "c \<notin> set s \<Longrightarrow> takeWhile (\<lambda>x. x \<noteq> c) s = s"
  by (induction s) auto

lemma toPkgPath_takeWhile: "toPkgPath ident = takeWhile (\<lambda>x. x \<noteq> CHR '' '') ident"
proof (cases "CHR '' '' \<in> set ident")
  case True
  have "take (length (takeWhile (\<lambda>x. x \<noteq> CHR '' '') ident)) ident
          = takeWhile (\<lambda>x. x \<noteq> CHR '' '') ident"
    by (rule takeWhile_eq_take [symmetric])
  with True show ?thesis by (simp add: toPkgPath_def IndexByte_takeWhile Let_def)
next
  case False
  then show ?thesis
    by (simp add: toPkgPath_def IndexByte_takeWhile Let_def takeWhile_absent)
qed

lemma toPkgPath_test_variant: "toPkgPath (path @ CHR '' '' # rest) = toPkgPath path"
proof (cases "CHR '' '' \<in> set path")
  case True
  then show ?thesis
    unfolding toPkgPath_takeWhile by (intro takeWhile_append1 [of "CHR '' ''"]) simp_all
next
  case False
  then have "takeWhile (\<lambda>x. x \<noteq> CHR '' '') (path @ CHR '' '' # rest)
               = path @ takeWhile (\<lambda>x. x \<noteq> CHR '' '') (CHR '' '' # rest)"
    by (intro takeWhile_append2) auto
  with False show ?thesis unfolding toPkgPath_takeWhile by (simp add: takeWhile_absent)
qed

text \<open>
  Once an import is in the import map of a package with an identifier that
  \<^const>\<open>toPkgPath\<close> takes to the import's own prefix, it stays there with such an
  identifier, as long as \<^verbatim>\<open>havePkgs\<close> maps the import, if at all, to such an
  identifier.
\<close>

lemma setImport_keeps_prefix:
  assumes "(imp, ident) \<in> set (Imports (ps ! k))" and "toPkgPath ident = toPkgPath imp"
    and "imp' = imp \<longrightarrow> toPkgPath ident' = toPkgPath imp"
  shows "\<exists>ident2. (imp, ident2) \<in> set (Imports (setImport ps j imp' ident' ! k))
                   \<and> toPkgPath ident2 = toPkgPath imp"
proof (cases "k = j \<and> j < length ps")
  case False
  then have "setImport ps j imp' ident' ! k = ps ! k" by (auto simp: setImport_package)
  with assms(1,2) show ?thesis by auto
next
  case True
  then have im: "Imports (setImport ps j imp' ident' ! k)
                   = AList.update imp' ident' (Imports (ps ! k))"
    by (simp add: setImport_package)
  show ?thesis
  proof (cases "imp' = imp")
    case True
    then have "(imp, ident') \<in> set (Imports (setImport ps j imp' ident' ! k))"
      unfolding im by (simp add: update_sets)
    with True assms(3) show ?thesis by blast
  next
    case False
    then have "(imp, ident) \<in> set (Imports (setImport ps j imp' ident' ! k))"
      unfolding im using assms(1) by (intro update_keeps_other) auto
    with assms(2) show ?thesis by blast
  qed
qed

lemma addImports_keeps_prefix:
  assumes "\<forall>v. havePkgs st imp = Some v \<longrightarrow> toPkgPath v = toPkgPath imp"
    and "\<exists>ident. (imp, ident) \<in> set (Imports (Packages st ! k))
                  \<and> toPkgPath ident = toPkgPath imp"
  shows "\<exists>ident. (imp, ident) \<in> set (Imports (Packages (addImports imps i tvo st) ! k))
                  \<and> toPkgPath ident = toPkgPath imp"
  using assms
proof (induction imps arbitrary: st)
  case Nil
  then show ?case by simp
next
  case (Cons imp' imps)
  show ?case
  proof (cases "map_of (Imports (Packages st ! i)) imp' \<noteq> None")
    case True
    then have "addImports (imp' # imps) i tvo st = addImports imps i tvo st"
      by (rule addImports_skip)
    then show ?thesis using Cons.IH [OF Cons.prems] by simp
  next
    case False
    define ident' where "ident' = (case havePkgs st imp' of Some known \<Rightarrow> known | None \<Rightarrow> imp')"
    define ps1 where "ps1 = setImport (Packages st) i imp' ident'"
    define ps2 where "ps2 =
       (case tvo of None \<Rightarrow> setImport (Packages st) i imp' ident'
        | Some t \<Rightarrow> setImport (setImport (Packages st) i imp' ident') t imp' ident')"
    define st2 where "st2 = st\<lparr>Packages := ps2, overlayAddsImports := True\<rparr>"
    have eq: "addImports (imp' # imps) i tvo st = addImports imps i tvo st2"
      unfolding st2_def using False by (intro addImports_add [OF _ ident'_def ps2_def]) simp
    have id: "imp' = imp \<longrightarrow> toPkgPath ident' = toPkgPath imp"
      using Cons.prems(1) by (cases "havePkgs st imp'") (auto simp: ident'_def)
    from Cons.prems(2) obtain ident where
      m: "(imp, ident) \<in> set (Imports (Packages st ! k))" "toPkgPath ident = toPkgPath imp"
      by blast
    from setImport_keeps_prefix [OF m id, of i] obtain ident1 where
      m1: "(imp, ident1) \<in> set (Imports (ps1 ! k))" "toPkgPath ident1 = toPkgPath imp"
      unfolding ps1_def by blast
    have "\<exists>ident2. (imp, ident2) \<in> set (Imports (ps2 ! k))
                   \<and> toPkgPath ident2 = toPkgPath imp"
    proof (cases tvo)
      case None
      with m1 show ?thesis by (auto simp: ps2_def ps1_def)
    next
      case (Some t)
      from setImport_keeps_prefix [OF m1 id, of t] Some show ?thesis
        by (simp add: ps2_def ps1_def)
    qed
    then have "\<exists>ident. (imp, ident) \<in> set (Imports (Packages st2 ! k))
                  \<and> toPkgPath ident = toPkgPath imp"
      by (simp add: st2_def)
    moreover have "\<forall>v. havePkgs st2 imp = Some v \<longrightarrow> toPkgPath v = toPkgPath imp"
      using Cons.prems(1) by (simp add: st2_def)
    ultimately show ?thesis using Cons.IH [of st2] eq by simp
  qed
qed

lemma resolvePackage_havePkgs_value:
  assumes "resolvePackage E opath contents pkgName st = Proceed (s, i, st1)"
  shows "havePkgs st1 = havePkgs st
         \<or> (\<exists>pkgPath ident. havePkgs st1 = (havePkgs st)(pkgPath \<mapsto> ident)
               \<and> toPkgPath ident = toPkgPath pkgPath)"
  using assms
proof (cases rule: resolvePackage_cases)
  case found
  then show ?thesis by simp
next
  case (synthesized pkgPath0 pkgPath ident)
  have tv: "\<forall>t. testVariantOf s = Some t \<longrightarrow> t < length (Packages st)"
    by (simp add: synthesized(1) findPackage_bounds(2))
  have pre: "toPkgPath ident = toPkgPath pkgPath"
    unfolding synthesized(5) by (simp add: toPkgPath_test_variant)
  from synthesized(6) tv show ?thesis
  proof (cases rule: reclaimOrCreate_cases)
    case reclaimed
    then show ?thesis by simp
  next
    case (created new)
    with pre show ?thesis by auto
  qed
qed

lemma havePkgs_value_keeps:
  assumes "\<forall>v. h imp = Some v \<longrightarrow> toPkgPath v = toPkgPath imp"
    and "h' = h \<or> (\<exists>pkgPath ident. h' = h(pkgPath \<mapsto> ident)
                      \<and> toPkgPath ident = toPkgPath pkgPath)"
  shows "\<forall>v. h' imp = Some v \<longrightarrow> toPkgPath v = toPkgPath imp"
  using assms by (auto split: if_splits)

lemma processOverlayFile_keeps_prefix:
  assumes run: "processOverlayFile E (opath, contents) st = Proceed st'"
    and hv: "\<forall>v. havePkgs st imp = Some v \<longrightarrow> toPkgPath v = toPkgPath imp"
  shows "\<forall>v. havePkgs st' imp = Some v \<longrightarrow> toPkgPath v = toPkgPath imp"
    and "k < length (Packages st)
           \<Longrightarrow> \<exists>ident. (imp, ident) \<in> set (Imports (Packages st ! k))
                          \<and> toPkgPath ident = toPkgPath imp
           \<Longrightarrow> \<exists>ident. (imp, ident) \<in> set (Imports (Packages st' ! k))
                          \<and> toPkgPath ident = toPkgPath imp"
proof -
  have "(\<forall>v. havePkgs st' imp = Some v \<longrightarrow> toPkgPath v = toPkgPath imp)
        \<and> (k < length (Packages st)
             \<longrightarrow> (\<exists>ident. (imp, ident) \<in> set (Imports (Packages st ! k))
                          \<and> toPkgPath ident = toPkgPath imp)
             \<longrightarrow> (\<exists>ident. (imp, ident) \<in> set (Imports (Packages st' ! k))
                          \<and> toPkgPath ident = toPkgPath imp))"
    using run
  proof (cases rule: processOverlayFile_cases)
    case skipped
    with hv show ?thesis by simp
  next
    case (noImports pkgName s i st1 err)
    define st2 where "st2 = attachFile opath i (fileExists s) st1"
    have hp: "havePkgs st2 = havePkgs st1" by (simp add: st2_def attachFile_frame)
    have g: "\<forall>v. havePkgs st2 imp = Some v \<longrightarrow> toPkgPath v = toPkgPath imp"
      unfolding hp
      by (rule havePkgs_value_keeps [OF hv resolvePackage_havePkgs_value [OF noImports(2)]])
    have "k < length (Packages st) \<longrightarrow> Imports (Packages st2 ! k) = Imports (Packages st ! k)"
      using resolvePackage_imports_nth [OF noImports(2), of k]
      by (simp add: st2_def attachFile_nth)
    with g show ?thesis unfolding noImports(4) st2_def [symmetric] by simp
  next
    case (withImports pkgName s i st1 imps)
    define st2 where "st2 = attachFile opath i (fileExists s) st1"
    have st': "st' = addImports imps i (testVariantOf s) st2"
      by (simp add: withImports(4) st2_def)
    have hp: "havePkgs st2 = havePkgs st1" by (simp add: st2_def attachFile_frame)
    have g: "\<forall>v. havePkgs st2 imp = Some v \<longrightarrow> toPkgPath v = toPkgPath imp"
      unfolding hp
      by (rule havePkgs_value_keeps [OF hv resolvePackage_havePkgs_value [OF withImports(2)]])
    have hp': "havePkgs st' = havePkgs st2"
      using addImports_flags [of imps i "testVariantOf s" st2] by (simp add: st')
    have im: "k < length (Packages st) \<longrightarrow> Imports (Packages st2 ! k) = Imports (Packages st ! k)"
      using resolvePackage_imports_nth [OF withImports(2), of k]
      by (simp add: st2_def attachFile_nth)
    have "(\<exists>ident. (imp, ident) \<in> set (Imports (Packages st' ! k))
                          \<and> toPkgPath ident = toPkgPath imp)"
      if "k < length (Packages st)"
        "\<exists>ident. (imp, ident) \<in> set (Imports (Packages st ! k))
                          \<and> toPkgPath ident = toPkgPath imp"
    proof -
      from that im have "\<exists>ident. (imp, ident) \<in> set (Imports (Packages st2 ! k))
                          \<and> toPkgPath ident = toPkgPath imp"
        by simp
      from addImports_keeps_prefix [OF g this] show ?thesis by (simp add: st')
    qed
    with g hp' show ?thesis by simp
  qed
  then show "\<forall>v. havePkgs st' imp = Some v \<longrightarrow> toPkgPath v = toPkgPath imp"
    and "k < length (Packages st)
           \<Longrightarrow> \<exists>ident. (imp, ident) \<in> set (Imports (Packages st ! k))
                          \<and> toPkgPath ident = toPkgPath imp
           \<Longrightarrow> \<exists>ident. (imp, ident) \<in> set (Imports (Packages st' ! k))
                          \<and> toPkgPath ident = toPkgPath imp"
    by blast+
qed

lemma introducesUnresolved_introduces:
  "introducesUnresolved E entry st imp \<Longrightarrow> introduces E entry st imp"
  by (cases entry)
     (auto simp: introducesUnresolved_def introduces_def split: prod.splits ctl.splits sum.splits)

lemma processOverlayFile_introducesUnresolved:
  assumes run: "processOverlayFile E (opath, contents) st = Proceed st'"
    and intro: "introducesUnresolved E (opath, contents) st imp"
  shows "\<exists>i<length (Packages st'). (imp, imp) \<in> set (Imports (Packages st' ! i))
            \<and> overlayAddsImports st' \<and> havePkgs st' imp = None"
  using run
proof (cases rule: processOverlayFile_cases)
  case skipped
  with intro show ?thesis
    by (cases "extractPackageName E opath contents") (simp add: introducesUnresolved_def)
next
  case (noImports pkgName s i st1 err)
  with intro show ?thesis by (simp add: introducesUnresolved_def)
next
  case (withImports pkgName s i st1 imps)
  define st2 where "st2 = attachFile opath i (fileExists s) st1"
  have st': "st' = addImports imps i (testVariantOf s) st2"
    by (simp add: withImports(4) st2_def)
  from intro have a: "imp \<in> set imps" "map_of (Imports (Packages st1 ! i)) imp = None"
      "havePkgs st1 imp = None"
    by (simp_all add: introducesUnresolved_def withImports(1,2,3))
  have hp: "havePkgs st2 = havePkgs st1" and len: "length (Packages st2) = length (Packages st1)"
    by (simp_all add: st2_def attachFile_frame)
  have im: "Imports (Packages st2 ! i) = Imports (Packages st1 ! i)"
    by (simp add: st2_def attachFile_nth)
  have i: "i < length (Packages st2)"
    using resolvePackage_index [OF withImports(2)] len by simp
  have "(imp, imp) \<in> set (Imports (Packages st' ! i)) \<and> overlayAddsImports st'"
    unfolding st' using a hp im i by (intro addImports_introduces) simp_all
  moreover have "havePkgs st' imp = None"
    using addImports_flags [of imps i "testVariantOf s" st2] hp a(3) by (simp add: st')
  moreover have "i < length (Packages st')"
    using addImports_frame [of imps i "testVariantOf s" st2] i by (simp add: st')
  ultimately show ?thesis by blast
qed

lemma overlayLoop_keeps_prefix:
  assumes "k < length (Packages st)"
    and "\<forall>v. havePkgs st imp = Some v \<longrightarrow> toPkgPath v = toPkgPath imp"
    and "\<exists>ident. (imp, ident) \<in> set (Imports (Packages st ! k))
                  \<and> toPkgPath ident = toPkgPath imp"
  shows "\<exists>ident. (imp, ident) \<in> set (Imports (Packages (fst (overlayLoop E overlay st)) ! k))
                  \<and> toPkgPath ident = toPkgPath imp"
  using assms
proof (induction overlay arbitrary: st)
  case Nil
  then show ?case by simp
next
  case (Cons entry overlay)
  obtain opath contents where e: "entry = (opath, contents)" by (cases entry)
  show ?case
  proof (cases "processOverlayFile E entry st")
    case (Proceed st')
    have "grows (Packages st) (Packages st')" using Proceed by (rule processOverlayFile_grows)
    with Cons.prems(1) have k': "k < length (Packages st')" by (simp add: grows_def)
    note step = processOverlayFile_keeps_prefix [OF Proceed [unfolded e] Cons.prems(2)]
    from Cons.IH [OF k' step(1) step(2) [OF Cons.prems(1) Cons.prems(3)]] Proceed
    show ?thesis by simp
  qed (use Cons.prems in simp_all)
qed

lemma overlayLoop_introducesUnresolved:
  assumes "overlayIntroducesUnresolved E overlay st imp"
  shows "\<exists>i<length (Packages (fst (overlayLoop E overlay st))).
           (\<exists>ident. (imp, ident) \<in> set (Imports (Packages (fst (overlayLoop E overlay st)) ! i))
                     \<and> toPkgPath ident = toPkgPath imp)
           \<and> overlayAddsImports (fst (overlayLoop E overlay st))"
  using assms
proof (induction overlay arbitrary: st)
  case Nil
  then show ?case by simp
next
  case (Cons entry overlay)
  obtain opath contents where e: "entry = (opath, contents)" by (cases entry)
  have "\<exists>st'. processOverlayFile E entry st = Proceed st'"
  proof (cases "introducesUnresolved E entry st imp")
    case True
    then have "introduces E entry st imp" by (rule introducesUnresolved_introduces)
    then show ?thesis by (rule introduces_Proceed) blast
  next
    case False
    with Cons.prems show ?thesis
      by (cases "processOverlayFile E entry st") simp_all
  qed
  then obtain st' where run: "processOverlayFile E entry st = Proceed st'" by blast
  define stF where "stF = fst (overlayLoop E overlay st')"
  have "\<exists>i<length (Packages stF).
           (\<exists>ident. (imp, ident) \<in> set (Imports (Packages stF ! i))
                     \<and> toPkgPath ident = toPkgPath imp)
           \<and> overlayAddsImports stF"
  proof (cases "introducesUnresolved E entry st imp")
    case True
    from processOverlayFile_introducesUnresolved [OF run [unfolded e] True [unfolded e]]
    obtain i where i: "i < length (Packages st')"
        "(imp, imp) \<in> set (Imports (Packages st' ! i))" "overlayAddsImports st'"
        "havePkgs st' imp = None"
      by blast
    have "grows (Packages st') (Packages stF)" unfolding stF_def by (rule overlayLoop_grows)
    with i(1) have "i < length (Packages stF)" by (simp add: grows_def)
    moreover have "\<exists>ident. (imp, ident) \<in> set (Imports (Packages stF ! i))
                     \<and> toPkgPath ident = toPkgPath imp"
      unfolding stF_def
    proof (rule overlayLoop_keeps_prefix [OF i(1)])
      show "\<forall>v. havePkgs st' imp = Some v \<longrightarrow> toPkgPath v = toPkgPath imp"
        using i(4) by simp
      show "\<exists>ident. (imp, ident) \<in> set (Imports (Packages st' ! i))
                     \<and> toPkgPath ident = toPkgPath imp"
        using i(2) by blast
    qed
    moreover have "overlayAddsImports stF"
      unfolding stF_def using i(3) by (rule overlayLoop_flag_mono)
    ultimately show ?thesis by blast
  next
    case False
    with Cons.prems run have "overlayIntroducesUnresolved E overlay st' imp" by simp
    from Cons.IH [OF this] show ?thesis by (simp add: stF_def)
  qed
  with run show ?case by (simp add: stF_def)
qed


text \<open>
  Claim C6, as the code has it. Let reconciliation return without an error. If no
  overlay file introduces an import, \<^verbatim>\<open>needPkgs\<close> is \<^verbatim>\<open>nil\<close>. If some overlay file
  introduces the import \<open>imp\<close> while \<^verbatim>\<open>havePkgs\<close> has no entry for it, then
  \<^verbatim>\<open>needPkgs\<close> holds exactly once the path that \<^const>\<open>toPkgPath\<close> makes of \<open>imp\<close> (the
  import up to its first space, the import itself when it has no space), provided
  no package of the response as reconciliation leaves it has that path for its
  import path.
\<close>

theorem new_import_is_needed_once:
  assumes "processGolistOverlay E ps overlay = (ps', Inr (modifiedPkgs, needPkgs))"
  shows "((\<forall>imp. \<not> overlayIntroduces E overlay (initialState ps) imp) \<longrightarrow> needPkgs = None)
         \<and> (overlayIntroducesUnresolved E overlay (initialState ps) imp
              \<and> toPkgPath imp \<notin> PkgPath ` set ps'
            \<longrightarrow> (\<exists>need. needPkgs = Some need \<and> count_list need (toPkgPath imp) = 1))
         \<and> (CHR '' '' \<notin> set imp \<longrightarrow> toPkgPath imp = imp)"
proof -
  define stF where "stF = fst (overlayLoop E overlay (initialState ps))"
  have ol: "overlayLoop E overlay (initialState ps) = (stF, None)"
    using assms
    by (cases "overlayLoop E overlay (initialState ps)")
       (auto simp: processGolistOverlay_def stF_def Let_def split: option.splits)
  have ps': "ps' = Packages stF"
    and need: "needPkgs = (if overlayAddsImports stF
                           then Some (neededPackages (havePkgs stF) (Packages stF) [])
                           else None)"
    using assms by (simp_all add: processGolistOverlay_def ol Let_def)
  have none: "needPkgs = None" if "\<forall>imp. \<not> overlayIntroduces E overlay (initialState ps) imp"
  proof -
    from overlayLoop_introduces_nothing [OF that]
    have "\<not> overlayAddsImports stF" by (simp add: stF_def initialState_def)
    with need show ?thesis by simp
  qed
  have once: "\<exists>need. needPkgs = Some need \<and> count_list need (toPkgPath imp) = 1"
    if intro: "overlayIntroducesUnresolved E overlay (initialState ps) imp"
      and absent: "toPkgPath imp \<notin> PkgPath ` set ps'"
  proof -
    have "dom (havePkgs stF) \<subseteq> PkgPath ` set (Packages stF)"
    proof -
      have "grows (Packages (initialState ps)) (Packages stF)"
        unfolding stF_def by (rule overlayLoop_grows)
      then have "PkgPath ` set (Packages (initialState ps)) \<subseteq> PkgPath ` set (Packages stF)"
        by (rule grows_PkgPath)
      moreover have "dom (havePkgs (initialState ps)) = PkgPath ` set (Packages (initialState ps))"
        by (simp add: initialState_def initHavePkgs_dom)
      moreover have "dom (havePkgs stF)
          \<subseteq> dom (havePkgs (initialState ps)) \<union> PkgPath ` set (Packages stF)"
        unfolding stF_def by (rule overlayLoop_havePkgs_paths)
      ultimately show ?thesis by (simp only: subset_absorb)
    qed
    with absent have "toPkgPath imp \<notin> dom (havePkgs stF)"
      unfolding ps' by (rule contra_subsetD [rotated])
    then have h: "havePkgs stF (toPkgPath imp) = None" by (simp add: domIff)
    from overlayLoop_introducesUnresolved [OF intro]
    obtain i ident where i: "i < length (Packages stF)"
        "(imp, ident) \<in> set (Imports (Packages stF ! i))" "toPkgPath ident = toPkgPath imp"
        "overlayAddsImports stF"
      by (auto simp: stF_def)
    from i(4) need have n: "needPkgs = Some (neededPackages (havePkgs stF) (Packages stF) [])"
      by simp
    have "toPkgPath ident \<in> set (neededPackages (havePkgs stF) (Packages stF) [])"
      using i(1,2) h i(3)
      by (intro neededPackages_member [of "Packages stF ! i" _ imp]) simp_all
    moreover have "distinct (neededPackages (havePkgs stF) (Packages stF) [])"
      using neededPackages_acc [of "[]" "havePkgs stF" "Packages stF"] by simp
    ultimately have
      "count_list (neededPackages (havePkgs stF) (Packages stF) []) (toPkgPath imp) = 1"
      using i(3) by (simp add: count_list_distinct)
    with n show ?thesis by simp
  qed
  from none once toPkgPath_no_space [of imp] show ?thesis by blast
qed

theorem new_import_is_needed_once_witness:
  "processGolistOverlay sampleEnv [pkgA] [(''/r/a/new.go'', ''package a; import <x>'')]
     = ([pkgA\<lparr>GoFiles := [''/r/a/a.go'', ''/r/a/new.go''],
              CompiledGoFiles := [''/r/a/a.go'', ''/r/a/new.go''],
              Imports := [(''x'', ''x'')]\<rparr>],
        Inr ([''pkg/a''], Some [''x'']))
   \<and> overlayIntroducesUnresolved sampleEnv [(''/r/a/new.go'', ''package a; import <x>'')]
        (initialState [pkgA]) ''x''
   \<and> (\<exists>need. Some [''x''] = Some need \<and> count_list need (toPkgPath ''x'') = 1)
   \<and> toPkgPath ''x'' = ''x''
   \<and> overlayIntroducesUnresolved sampleEnv [(''/r/a/sp.go'', ''package a; import <a b>'')]
        (initialState [pkgA]) ''a b''
   \<and> (\<exists>need. Some [''a''] = Some need \<and> count_list need (toPkgPath ''a b'') = 1)
   \<and> (\<forall>imp. \<not> overlayIntroduces sampleEnv [(''/r/a/new.go'', ''package a'')]
                (initialState [pkgA]) imp)
   \<and> processGolistOverlay sampleEnv [pkgA] [(''/r/a/new.go'', ''package a'')]
       = ([pkgA\<lparr>GoFiles := [''/r/a/a.go'', ''/r/a/new.go''],
                CompiledGoFiles := [''/r/a/a.go'', ''/r/a/new.go'']\<rparr>],
          Inr ([''pkg/a''], None))"
proof -
  have r1: "processGolistOverlay sampleEnv [pkgA] [(''/r/a/new.go'', ''package a; import <x>'')]
     = ([pkgA\<lparr>GoFiles := [''/r/a/a.go'', ''/r/a/new.go''],
              CompiledGoFiles := [''/r/a/a.go'', ''/r/a/new.go''],
              Imports := [(''x'', ''x'')]\<rparr>],
        Inr ([''pkg/a''], Some [''x'']))"
    by code_simp
  have i1: "overlayIntroducesUnresolved sampleEnv [(''/r/a/new.go'', ''package a; import <x>'')]
        (initialState [pkgA]) ''x''"
    by (simp add: introducesUnresolved_def resolvePackage_def extractPackageName_def
        extractImports_def findPackage_def scanPackage_def variantCheck_def hasTestFiles_def
        HasSuffix_def initialState_def Let_def
        sampleEnv_def sampleSources_def sampleUnquote_def sampleDir_def sampleBase_def
        pkgA_def emptyPackage_def)
  have p1: "toPkgPath ''x'' = ''x''" by (simp add: toPkgPath_def)
  have ab1: "toPkgPath ''x'' \<notin> PkgPath ` set [pkgA\<lparr>GoFiles := [''/r/a/a.go'', ''/r/a/new.go''],
              CompiledGoFiles := [''/r/a/a.go'', ''/r/a/new.go''],
              Imports := [(''x'', ''x'')]\<rparr>]"
    by (simp add: toPkgPath_def pkgA_def emptyPackage_def)
  from new_import_is_needed_once [OF r1, of "''x''"] i1 ab1
  have c1: "\<exists>need. Some [''x''] = Some need \<and> count_list need (toPkgPath ''x'') = 1"
    by blast
  have r3: "processGolistOverlay sampleEnv [pkgA] [(''/r/a/sp.go'', ''package a; import <a b>'')]
     = ([pkgA\<lparr>GoFiles := [''/r/a/a.go'', ''/r/a/sp.go''],
              CompiledGoFiles := [''/r/a/a.go'', ''/r/a/sp.go''],
              Imports := [(''a b'', ''a b'')]\<rparr>],
        Inr ([''pkg/a''], Some [''a'']))"
    by code_simp
  have i3: "overlayIntroducesUnresolved sampleEnv [(''/r/a/sp.go'', ''package a; import <a b>'')]
        (initialState [pkgA]) ''a b''"
    by (simp add: introducesUnresolved_def resolvePackage_def extractPackageName_def
        extractImports_def findPackage_def scanPackage_def variantCheck_def hasTestFiles_def
        HasSuffix_def initialState_def Let_def
        sampleEnv_def sampleSources_def sampleUnquote_def sampleDir_def sampleBase_def
        pkgA_def emptyPackage_def)
  have ab3: "toPkgPath ''a b'' \<notin> PkgPath ` set [pkgA\<lparr>GoFiles := [''/r/a/a.go'', ''/r/a/sp.go''],
              CompiledGoFiles := [''/r/a/a.go'', ''/r/a/sp.go''],
              Imports := [(''a b'', ''a b'')]\<rparr>]"
    by (simp add: toPkgPath_def pkgA_def emptyPackage_def)
  from new_import_is_needed_once [OF r3, of "''a b''"] i3 ab3
  have c3: "\<exists>need. Some [''a''] = Some need \<and> count_list need (toPkgPath ''a b'') = 1"
    by blast
  have r2: "processGolistOverlay sampleEnv [pkgA] [(''/r/a/new.go'', ''package a'')]
       = ([pkgA\<lparr>GoFiles := [''/r/a/a.go'', ''/r/a/new.go''],
                CompiledGoFiles := [''/r/a/a.go'', ''/r/a/new.go'']\<rparr>],
          Inr ([''pkg/a''], None))"
    by code_simp
  have n2: "\<forall>imp. \<not> overlayIntroduces sampleEnv [(''/r/a/new.go'', ''package a'')]
                (initialState [pkgA]) imp"
    by (simp add: introduces_def resolvePackage_def extractPackageName_def
        extractImports_def findPackage_def scanPackage_def variantCheck_def hasTestFiles_def
        HasSuffix_def initialState_def Let_def
        sampleEnv_def sampleSources_def sampleUnquote_def sampleDir_def sampleBase_def
        pkgA_def emptyPackage_def split: ctl.splits)
  from r1 i1 c1 p1 i3 c3 n2 r2 show ?thesis by (intro conjI)
qed

text \<open>
  Claim C6 as the spec words it has the path of the import itself in \<^verbatim>\<open>needPkgs\<close>
  whenever the import is absent from the import map of its package and from
  \<^verbatim>\<open>havePkgs\<close> when it is introduced. In the first overlay a file of package \<open>a\<close>
  imports \<open>x\<close> and a second file makes a new package \<open>x\<close>: the first introduces \<open>x\<close>
  while \<^verbatim>\<open>havePkgs\<close> has no \<open>x\<close>, the second enters \<open>x\<close> into \<^verbatim>\<open>havePkgs\<close>, and
  \<^verbatim>\<open>needPkgs\<close> comes out empty. In the second overlay the import extracted from
  the file is \<open>a b\<close>: lines 134 to 151 store it as it is, line 170 cuts the
  identifier at its space, and \<^verbatim>\<open>needPkgs\<close> holds \<open>a\<close>, not \<open>a b\<close>.
\<close>

theorem import_of_overlay_package_counterexample:
  "introducesUnresolved sampleEnv (''/r/a/new.go'', ''package a; import <x>'')
      (initialState [pkgA]) ''x''
   \<and> snd (processGolistOverlay sampleEnv [pkgA]
        [(''/r/a/new.go'', ''package a; import <x>''), (''/r/x/x.go'', ''package x'')])
       = Inr ([''x'', ''pkg/a''], Some [])
   \<and> introducesUnresolved sampleEnv (''/r/a/sp.go'', ''package a; import <a b>'')
      (initialState [pkgA]) ''a b''
   \<and> snd (processGolistOverlay sampleEnv [pkgA]
        [(''/r/a/sp.go'', ''package a; import <a b>'')])
       = Inr ([''pkg/a''], Some [''a''])
   \<and> count_list [''a''] ''a b'' = 0"
proof -
  have "introducesUnresolved sampleEnv (''/r/a/new.go'', ''package a; import <x>'')
          (initialState [pkgA]) ''x''"
    by (simp add: introducesUnresolved_def resolvePackage_def extractPackageName_def
        extractImports_def findPackage_def scanPackage_def variantCheck_def hasTestFiles_def
        HasSuffix_def initialState_def Let_def
        sampleEnv_def sampleSources_def sampleUnquote_def sampleDir_def sampleBase_def
        pkgA_def emptyPackage_def)
  moreover have "snd (processGolistOverlay sampleEnv [pkgA]
        [(''/r/a/new.go'', ''package a; import <x>''), (''/r/x/x.go'', ''package x'')])
       = Inr ([''x'', ''pkg/a''], Some [])"
    by code_simp
  moreover have "introducesUnresolved sampleEnv (''/r/a/sp.go'', ''package a; import <a b>'')
      (initialState [pkgA]) ''a b''"
    by (simp add: introducesUnresolved_def resolvePackage_def extractPackageName_def
        extractImports_def findPackage_def scanPackage_def variantCheck_def hasTestFiles_def
        HasSuffix_def initialState_def Let_def
        sampleEnv_def sampleSources_def sampleUnquote_def sampleDir_def sampleBase_def
        pkgA_def emptyPackage_def)
  moreover have "snd (processGolistOverlay sampleEnv [pkgA]
        [(''/r/a/sp.go'', ''package a; import <a b>'')])
       = Inr ([''pkg/a''], Some [''a''])"
    by code_simp
  moreover have "count_list [''a''] ''a b'' = 0" by simp
  ultimately show ?thesis by (intro conjI)
qed


end
